theory Spec2Isabelle
  imports Main
begin

section \<open>Bytes and strings\<close>

text \<open>
  A Go \<^verbatim>\<open>string\<close> is a sequence of bytes; \<^typ>\<open>char\<close> is a byte, so \<^typ>\<open>string\<close> is
  the Go string. Columns, line indices and lengths are Go \<^verbatim>\<open>int\<close>s that only count
  upwards from 0 and stay below the input length plus two, so they are \<^typ>\<open>nat\<close>.
  A Go run-time panic (index or slice out of range) is the value \<open>Inl\<close> of a result.
\<close>

datatype error = IndexOutOfRange | SliceOutOfRange

abbreviation LF :: char where "LF \<equiv> CHR 0x0A"
abbreviation backtick :: char where "backtick \<equiv> CHR 0x60"
abbreviation dquote :: char where "dquote \<equiv> CHR 0x22"
abbreviation squote :: char where "squote \<equiv> CHR 0x27"

definition byte :: "char \<Rightarrow> nat" where
  "byte ch = of_char ch"

text \<open>Go's \<^verbatim>\<open>s[a:b]\<close>: panics unless \<open>a \<le> b \<le> len(s)\<close>.\<close>

definition slice :: "string \<Rightarrow> nat \<Rightarrow> nat \<Rightarrow> error + string" where
  "slice s a b = (if a \<le> b \<and> b \<le> length s then Inr (take (b - a) (drop a s)) else Inl SliceOutOfRange)"

text \<open>
  Go's conversion \<^verbatim>\<open>string(ch)\<close> of a byte: the UTF-8 encoding of the code point with
  that number, one byte below 0x80 and two bytes from 0x80 to 0xFF.
\<close>

definition byteToString :: "char \<Rightarrow> string" where
  "byteToString ch =
     (if byte ch < 128 then [ch]
      else [char_of (192 + byte ch div 64), char_of (128 + byte ch mod 64)])"

section \<open>token.go\<close>

text \<open>
  Modelled from the spec: the constructor \<open>STRING\<close>. lexer.go uses the constant
  \<^verbatim>\<open>STRING\<close> and token.go does not declare it; it is the kind \<^verbatim>\<open>StringLiteral\<close> of
  the enumeration in section 3 of the specification, where it stands after
  \<^verbatim>\<open>Integer\<close>. The other constructors are the constants of token.go in their order
  (\<^verbatim>\<open>INT\<close> is written \<open>INT'\<close>, the plain name being HOL syntax).
\<close>

datatype TokenType =
    ILLEGAL | EOF
  | IDENT | INT' | STRING
  | ASSIGN | PLUS | MINUS | ASTERISK | SLASH | PERCENT | EQ | LT | GT | BANG
  | AND | OR | XOR
  | DOT | COMMA | SEMICOLON | COLON | LPAREN | RPAREN | LBRACE | RBRACE
  | LBRACKET | RBRACKET

record Token =
  Type :: TokenType
  Literal :: string
  Start :: nat
  End :: nat
  Line :: nat

definition isLetter :: "char \<Rightarrow> bool" where
  "isLetter ch = ((byte ch \<ge> byte CHR ''a'' \<and> byte ch \<le> byte CHR ''z'')
                \<or> (byte ch \<ge> byte CHR ''A'' \<and> byte ch \<le> byte CHR ''Z''))"

definition isDigit :: "char \<Rightarrow> bool" where
  "isDigit ch = (byte ch \<ge> byte CHR ''0'' \<and> byte ch \<le> byte CHR ''9'')"

definition isOperator :: "char \<Rightarrow> bool" where
  "isOperator ch = (ch \<in> set ''+-*/%=<>!&|^'')"

definition isPunctuation :: "char \<Rightarrow> bool" where
  "isPunctuation ch = (ch \<in> set ''.,;:(){}[]'')"

definition isUnderscore :: "char \<Rightarrow> bool" where
  "isUnderscore ch = (ch = CHR ''_'')"

definition isWhitespace :: "char \<Rightarrow> bool" where
  "isWhitespace ch = (ch = CHR '' '' \<or> ch = CHR 0x09 \<or> ch = LF \<or> ch = CHR 0x0D)"

definition isAlphanumericOrUnderscore :: "char \<Rightarrow> bool" where
  "isAlphanumericOrUnderscore ch = (isLetter ch \<or> isDigit ch \<or> isUnderscore ch)"

text \<open>
  The \<^verbatim>\<open>switch literal\<close> of \<^verbatim>\<open>GenerateNewToken\<close>, case by case in the order of the
  source; the default branch reads \<^verbatim>\<open>literal[0]\<close>, which panics on the empty string.
\<close>

definition tokenType :: "string \<Rightarrow> error + TokenType" where
  "tokenType literal =
     (if literal = ''+'' then Inr PLUS
      else if literal = ''-'' then Inr MINUS
      else if literal = ''*'' then Inr ASTERISK
      else if literal = ''/'' then Inr SLASH
      else if literal = ''%'' then Inr PERCENT
      else if literal = ''='' then Inr ASSIGN
      else if literal = ''=='' then Inr EQ
      else if literal = ''<'' then Inr LT
      else if literal = ''>'' then Inr GT
      else if literal = ''!'' then Inr BANG
      else if literal = ''&'' then Inr AND
      else if literal = ''|'' then Inr OR
      else if literal = ''^'' then Inr XOR
      else if literal = ''.'' then Inr DOT
      else if literal = '','' then Inr COMMA
      else if literal = '';'' then Inr SEMICOLON
      else if literal = '':'' then Inr COLON
      else if literal = ''('' then Inr LPAREN
      else if literal = '')'' then Inr RPAREN
      else if literal = ''{'' then Inr LBRACE
      else if literal = ''}'' then Inr RBRACE
      else if literal = ''['' then Inr LBRACKET
      else if literal = '']'' then Inr RBRACKET
      else (case literal of
              [] \<Rightarrow> Inl IndexOutOfRange
            | c # _ \<Rightarrow>
                if isDigit c then Inr INT'
                else if isLetter c \<or> isUnderscore c then Inr IDENT
                else Inr ILLEGAL))"

definition GenerateNewToken :: "string \<Rightarrow> nat \<Rightarrow> nat \<Rightarrow> nat \<Rightarrow> error + Token" where
  "GenerateNewToken literal start end' line =
     (case tokenType literal of
        Inl e \<Rightarrow> Inl e
      | Inr ty \<Rightarrow> Inr \<lparr>Type = ty, Literal = literal, Start = start, End = end', Line = line\<rparr>)"

text \<open>
  The symbol table and the first-character rule as section 4.3 of the specification words
  them, to be compared with \<^const>\<open>tokenType\<close>.
\<close>

definition symbolTable :: "(string \<times> TokenType) list" where
  "symbolTable =
     [(''+'', PLUS), (''-'', MINUS), (''*'', ASTERISK), (''/'', SLASH), (''%'', PERCENT),
      (''='', ASSIGN), (''=='', EQ), (''<'', LT), (''>'', GT), (''!'', BANG),
      (''&'', AND), (''|'', OR), (''^'', XOR),
      (''.'', DOT), ('','', COMMA), ('';'', SEMICOLON), ('':'', COLON),
      (''('', LPAREN), ('')'', RPAREN), (''{'', LBRACE), (''}'', RBRACE),
      (''['', LBRACKET), ('']'', RBRACKET)]"

definition classifySpec :: "string \<Rightarrow> TokenType" where
  "classifySpec literal =
     (case map_of symbolTable literal of
        Some k \<Rightarrow> k
      | None \<Rightarrow>
          if isDigit (hd literal) then INT'
          else if isLetter (hd literal) \<or> hd literal = CHR ''_'' then IDENT
          else ILLEGAL)"

section \<open>Go library functions used by lexer.go\<close>

text \<open>
  \<^verbatim>\<open>strings.Split(s, "\n")\<close>: the pieces of \<open>s\<close> between line feeds, one more piece
  than there are line feeds; the empty string gives one empty piece.
\<close>

fun Split :: "string \<Rightarrow> string list" where
  "Split [] = [[]]"
| "Split (c # cs) =
     (if c = LF then [] # Split cs
      else (case Split cs of l # ls \<Rightarrow> (c # l) # ls | [] \<Rightarrow> [[c]]))"

text \<open>\<^verbatim>\<open>strings.HasPrefix(s, prefix)\<close>.\<close>

definition HasPrefix :: "string \<Rightarrow> string \<Rightarrow> bool" where
  "HasPrefix s pre = (length s \<ge> length pre \<and> take (length pre) s = pre)"

text \<open>
  \<^verbatim>\<open>strings.TrimSpace(s)\<close> removes the leading and the trailing white space of \<open>s\<close>
  "as defined by Unicode": it decodes UTF-8 from the front, and backwards from the end,
  and drops the runes that \<^verbatim>\<open>unicode.IsSpace\<close> accepts. Those are the six ASCII
  characters tab, line feed, vertical tab, form feed, carriage return and space, and
  U+0085, U+00A0, U+1680, U+2000 to U+200A, U+2028, U+2029, U+202F, U+205F and U+3000.
  A rune is decoded at a position exactly when its UTF-8 encoding stands there, so the
  white space is described by the encodings below; a byte that starts no valid encoding
  decodes to U+FFFD, which is not white space, and stops the trimming.
\<close>

definition asciiSpace :: "char \<Rightarrow> bool" where
  "asciiSpace c = (c \<in> set [CHR 0x09, CHR 0x0A, CHR 0x0B, CHR 0x0C, CHR 0x0D, CHR 0x20])"

definition spaceRunes2 :: "string list" where
  "spaceRunes2 = [[CHR 0xC2, CHR 0x85], [CHR 0xC2, CHR 0xA0]]"

definition spaceRunes3 :: "string list" where
  "spaceRunes3 =
     [[CHR 0xE1, CHR 0x9A, CHR 0x80],
      [CHR 0xE2, CHR 0x80, CHR 0x80], [CHR 0xE2, CHR 0x80, CHR 0x81],
      [CHR 0xE2, CHR 0x80, CHR 0x82], [CHR 0xE2, CHR 0x80, CHR 0x83],
      [CHR 0xE2, CHR 0x80, CHR 0x84], [CHR 0xE2, CHR 0x80, CHR 0x85],
      [CHR 0xE2, CHR 0x80, CHR 0x86], [CHR 0xE2, CHR 0x80, CHR 0x87],
      [CHR 0xE2, CHR 0x80, CHR 0x88], [CHR 0xE2, CHR 0x80, CHR 0x89],
      [CHR 0xE2, CHR 0x80, CHR 0x8A],
      [CHR 0xE2, CHR 0x80, CHR 0xA8], [CHR 0xE2, CHR 0x80, CHR 0xA9],
      [CHR 0xE2, CHR 0x80, CHR 0xAF], [CHR 0xE2, CHR 0x81, CHR 0x9F],
      [CHR 0xE3, CHR 0x80, CHR 0x80]]"

text \<open>The width in bytes of the white-space rune that \<open>s\<close> starts with, 0 when there is none.\<close>

definition firstSpaceWidth :: "string \<Rightarrow> nat" where
  "firstSpaceWidth s =
     (case s of
        [] \<Rightarrow> 0
      | c # _ \<Rightarrow>
          if asciiSpace c then 1
          else if take 2 s \<in> set spaceRunes2 then 2
          else if take 3 s \<in> set spaceRunes3 then 3
          else 0)"

text \<open>The width in bytes of the white-space rune that \<open>s\<close> ends with, 0 when there is none.\<close>

definition lastSpaceWidth :: "string \<Rightarrow> nat" where
  "lastSpaceWidth s =
     (if s = [] then 0
      else if asciiSpace (last s) then 1
      else if drop (length s - 2) s \<in> set spaceRunes2 then 2
      else if drop (length s - 3) s \<in> set spaceRunes3 then 3
      else 0)"

function trimLeft :: "string \<Rightarrow> string" where
  "trimLeft s = (if firstSpaceWidth s = 0 then s else trimLeft (drop (firstSpaceWidth s) s))"
  by pat_completeness auto
termination
  by (relation "measure length") (auto simp: firstSpaceWidth_def split: list.splits if_splits)

function trimRight :: "string \<Rightarrow> string" where
  "trimRight s =
     (if lastSpaceWidth s = 0 then s else trimRight (take (length s - lastSpaceWidth s) s))"
  by pat_completeness auto
termination
  by (relation "measure length") (auto simp: lastSpaceWidth_def split: if_splits)

definition TrimSpace :: "string \<Rightarrow> string" where
  "TrimSpace s = trimRight (trimLeft s)"

section \<open>lexer.go\<close>

text \<open>
  The lexer's mutable fields. \<^verbatim>\<open>position\<close> and \<^verbatim>\<open>ch\<close> are never read or written
  and are left out.
\<close>

record DraskenLexer =
  input :: string
  commentPrefixes :: "string list"
  columnPosition :: nat
  linePosition :: nat

definition NewLexer :: "string \<Rightarrow> string list \<Rightarrow> DraskenLexer" where
  "NewLexer inp prefixes =
     \<lparr>input = inp, commentPrefixes = prefixes, columnPosition = 0, linePosition = 0\<rparr>"

definition shouldSkipLine :: "DraskenLexer \<Rightarrow> string \<Rightarrow> bool" where
  "shouldSkipLine l line =
     (let trimmed = TrimSpace line in list_ex (\<lambda>pre. HasPrefix trimmed pre) (commentPrefixes l))"

subsection \<open>generateLiteral\<close>

text \<open>The loop of the quoted-string branch, from \<open>i\<close>; its value is the final \<open>i\<close>.\<close>

function quoteLoop :: "string \<Rightarrow> char \<Rightarrow> nat \<Rightarrow> nat" where
  "quoteLoop line quote i =
     (if i < length line then
        (if line ! i = quote then i + 1 else quoteLoop line quote (i + 1))
      else i)"
  by pat_completeness auto
termination
  by (relation "measure (\<lambda>(line, quote, i). length line - i)") auto

text \<open>The loop of the number branch, with its flag \<^verbatim>\<open>hasDot\<close>.\<close>

function numberLoop :: "string \<Rightarrow> nat \<Rightarrow> bool \<Rightarrow> nat" where
  "numberLoop line i hasDot =
     (if i < length line then
        (if line ! i = CHR ''.'' then
           (if hasDot then i else numberLoop line (i + 1) True)
         else if \<not> isDigit (line ! i) then i
         else numberLoop line (i + 1) hasDot)
      else i)"
  by pat_completeness auto
termination
  by (relation "measure (\<lambda>(line, i, hasDot). length line - i)") auto

text \<open>The loop of the identifier branch.\<close>

function identLoop :: "string \<Rightarrow> nat \<Rightarrow> nat" where
  "identLoop line i =
     (if i < length line \<and> isAlphanumericOrUnderscore (line ! i) then identLoop line (i + 1)
      else i)"
  by pat_completeness auto
termination
  by (relation "measure (\<lambda>(line, i). length line - i)") auto

text \<open>
  \<^verbatim>\<open>generateLiteral\<close> returns the literal and the lexer with its column moved.
  \<^verbatim>\<open>line[start]\<close> panics when the column is not inside the line.
\<close>

definition generateLiteral :: "DraskenLexer \<Rightarrow> string \<Rightarrow> error + (string \<times> DraskenLexer)" where
  "generateLiteral l line =
     (let start = columnPosition l in
      if \<not> start < length line then Inl IndexOutOfRange
      else
        let ch = line ! start in
        if ch = dquote \<or> ch = squote then
          (let i = quoteLoop line ch (start + 1) in
           case slice line start i of
             Inl e \<Rightarrow> Inl e
           | Inr lit \<Rightarrow> Inr (lit, l\<lparr>columnPosition := i\<rparr>))
        else if isDigit ch \<or> (ch = CHR ''.'' \<and> start + 1 < length line \<and> isDigit (line ! (start + 1))) then
          (let i = numberLoop line start False in
           case slice line start i of
             Inl e \<Rightarrow> Inl e
           | Inr lit \<Rightarrow> Inr (lit, l\<lparr>columnPosition := i\<rparr>))
        else if isLetter ch \<or> ch = CHR ''_'' then
          (let i = identLoop line start in
           case slice line start i of
             Inl e \<Rightarrow> Inl e
           | Inr lit \<Rightarrow> Inr (lit, l\<lparr>columnPosition := i\<rparr>))
        else if isOperator ch then
          (if ch = CHR ''='' \<and> start + 1 < length line \<and> line ! (start + 1) = CHR ''='' then
             Inr (''=='', l\<lparr>columnPosition := columnPosition l + 2\<rparr>)
           else Inr (byteToString ch, l\<lparr>columnPosition := columnPosition l + 1\<rparr>))
        else if isPunctuation ch then
          Inr (byteToString ch, l\<lparr>columnPosition := columnPosition l + 1\<rparr>)
        else
          Inr (byteToString ch, l\<lparr>columnPosition := columnPosition l + 1\<rparr>))"

subsection \<open>GenerateTokens\<close>

text \<open>
  The innermost loop of the backtick branch, over the characters of one line: the new
  column, the content written so far, and \<^verbatim>\<open>terminated\<close>.
\<close>

function rawLineLoop :: "string \<Rightarrow> nat \<Rightarrow> string \<Rightarrow> nat \<times> string \<times> bool" where
  "rawLineLoop line col content =
     (if col < length line then
        (let ch = line ! col in
         if ch = backtick then (col + 1, content @ [backtick], True)
         else rawLineLoop line (col + 1) (content @ [ch]))
      else (col, content, False))"
  by pat_completeness auto
termination
  by (relation "measure (\<lambda>(line, col, content). length line - col)") auto

text \<open>
  The loop \<^verbatim>\<open>for !terminated && l.linePosition < len(lines)\<close>, entered with
  \<^verbatim>\<open>terminated\<close> false; it ends when a line holds the closing backtick or the lines
  are used up.
\<close>

function rawLoop :: "string list \<Rightarrow> DraskenLexer \<Rightarrow> string \<Rightarrow> DraskenLexer \<times> string" where
  "rawLoop lines l content =
     (if linePosition l < length lines then
        (case rawLineLoop (lines ! linePosition l) (columnPosition l) content of
           (col, content', terminated) \<Rightarrow>
             if \<not> terminated then
               rawLoop lines (l\<lparr>linePosition := linePosition l + 1, columnPosition := 0\<rparr>)
                 (content' @ [LF])
             else (l\<lparr>columnPosition := col\<rparr>, content'))
      else (l, content))"
  by pat_completeness auto
termination
  by (relation "measure (\<lambda>(lines, l, content). length lines - linePosition l)") auto

declare trimLeft.simps [simp del] trimRight.simps [simp del]
declare quoteLoop.simps [simp del] numberLoop.simps [simp del] identLoop.simps [simp del]
declare rawLineLoop.simps [simp del] rawLoop.simps [simp del]

subsection \<open>Progress of the inner loops\<close>

text \<open>
  Each inner loop moves the cursor forwards and leaves it inside the text. These facts
  carry the termination of the column loop and the absence of panics.
\<close>

lemma quoteLoop_bounds: "i \<le> length line \<Longrightarrow> i \<le> quoteLoop line q i \<and> quoteLoop line q i \<le> length line"
proof (induction line q i rule: quoteLoop.induct)
  case (1 line quote i)
  show ?case using 1 by (subst (1 2) quoteLoop.simps) auto
qed

lemma numberLoop_bounds: "i \<le> length line \<Longrightarrow> i \<le> numberLoop line i d \<and> numberLoop line i d \<le> length line"
proof (induction line i d rule: numberLoop.induct)
  case (1 line i hasDot)
  show ?case using 1 by (subst (1 2) numberLoop.simps) auto
qed

lemma identLoop_bounds: "i \<le> length line \<Longrightarrow> i \<le> identLoop line i \<and> identLoop line i \<le> length line"
proof (induction line i rule: identLoop.induct)
  case (1 line i)
  show ?case using 1 by (subst (1 2) identLoop.simps) auto
qed

lemma numberLoop_first:
  assumes "i < length line" "isDigit (line ! i) \<or> line ! i = CHR ''.''"
  shows "numberLoop line i False = numberLoop line (i + 1) (line ! i = CHR ''.'')"
  using assms by (subst numberLoop.simps) auto

lemma identLoop_first:
  assumes "i < length line" "isLetter (line ! i) \<or> line ! i = CHR ''_''"
  shows "identLoop line i = identLoop line (i + 1)"
  using assms by (subst identLoop.simps) (auto simp: isAlphanumericOrUnderscore_def isUnderscore_def)

lemma generateLiteral_progress:
  assumes "generateLiteral l line = Inr (lit, l')"
  shows "columnPosition l < columnPosition l' \<and> columnPosition l' \<le> length line
         \<and> linePosition l' = linePosition l \<and> commentPrefixes l' = commentPrefixes l
         \<and> input l' = input l"
proof -
  let ?s = "columnPosition l"
  from assms have lt: "?s < length line"
    by (auto simp: generateLiteral_def Let_def split: if_splits)
  have q: "?s < quoteLoop line q (?s + 1)" "quoteLoop line q (?s + 1) \<le> length line" for q
    using quoteLoop_bounds[of "?s + 1" line q] lt by simp_all
  have n: "?s < numberLoop line (?s + 1) d" "numberLoop line (?s + 1) d \<le> length line" for d
    using numberLoop_bounds[of "?s + 1" line d] lt by simp_all
  have i: "?s < identLoop line (?s + 1)" "identLoop line (?s + 1) \<le> length line"
    using identLoop_bounds[of "?s + 1" line] lt by simp_all
  show ?thesis
    using assms lt q n i
    by (auto simp: generateLiteral_def Let_def numberLoop_first identLoop_first
        split: if_splits sum.splits)
qed

lemma rawLineLoop_bounds:
  "rawLineLoop line col content = (col', content', t) \<Longrightarrow>
     col \<le> col' \<and> (t \<longrightarrow> col < col')"
proof (induction line col content rule: rawLineLoop.induct)
  case (1 line col content)
  show ?case using "1.prems" "1.IH"
    by (subst (asm) rawLineLoop.simps) (auto simp: Let_def split: if_splits)
qed

lemma rawLoop_bounds:
  "rawLoop lines l content = (l', content') \<Longrightarrow>
     linePosition l \<le> linePosition l'
     \<and> (linePosition l' = linePosition l \<longrightarrow> columnPosition l \<le> columnPosition l')
     \<and> (linePosition l < linePosition l' \<longrightarrow> linePosition l' \<le> length lines)
     \<and> commentPrefixes l' = commentPrefixes l \<and> input l' = input l"
proof (induction lines l content rule: rawLoop.induct)
  case (1 lines l content)
  show ?case
  proof (cases "linePosition l < length lines")
    case False
    with "1.prems" show ?thesis by (subst (asm) rawLoop.simps) auto
  next
    case True
    obtain col c t where r: "rawLineLoop (lines ! linePosition l) (columnPosition l) content = (col, c, t)"
      by (cases "rawLineLoop (lines ! linePosition l) (columnPosition l) content") auto
    show ?thesis
    proof (cases t)
      case True
      with "1.prems" r \<open>linePosition l < length lines\<close> rawLineLoop_bounds[OF r]
      show ?thesis by (subst (asm) rawLoop.simps) auto
    next
      case False
      with "1.prems" r \<open>linePosition l < length lines\<close>
      have "rawLoop lines (l\<lparr>linePosition := linePosition l + 1, columnPosition := 0\<rparr>) (c @ [LF]) = (l', content')"
        by (subst (asm) rawLoop.simps) auto
      from "1.IH"[OF \<open>linePosition l < length lines\<close> r[symmetric] refl False this]
      show ?thesis using \<open>linePosition l < length lines\<close> by auto
    qed
  qed
qed

subsection \<open>The column loop\<close>

text \<open>
  The loop \<^verbatim>\<open>for l.columnPosition < lineLen\<close> of one pass of the line loop.
  \<open>line\<close> is the variable \<^verbatim>\<open>line\<close> of the line loop and \<^verbatim>\<open>lineLen\<close> its length: both
  are set before the loop and never again, also when the backtick branch has moved
  \<^verbatim>\<open>l.linePosition\<close> (its own \<^verbatim>\<open>line\<close> is a new variable of the inner block).
\<close>

function columnLoop :: "string list \<Rightarrow> string \<Rightarrow> DraskenLexer \<Rightarrow> Token list \<Rightarrow> error + (DraskenLexer \<times> Token list)" where
  "columnLoop lines line l tokens =
     (if columnPosition l < length line then
        (let ch = line ! columnPosition l in
         if isWhitespace ch then
           columnLoop lines line (l\<lparr>columnPosition := columnPosition l + 1\<rparr>) tokens
         else if ch = backtick then
           (let startLine = linePosition l;
                startColumn = columnPosition l
            in case rawLoop lines (l\<lparr>columnPosition := columnPosition l + 1\<rparr>) [backtick] of
                 (l', content) \<Rightarrow>
                   columnLoop lines line l'
                     (tokens @ [\<lparr>Type = STRING, Literal = content, Start = startColumn,
                                 End = columnPosition l', Line = startLine\<rparr>]))
         else
           (let literalStart = columnPosition l
            in case generateLiteral l line of
                 Inl e \<Rightarrow> Inl e
               | Inr (literal, l') \<Rightarrow>
                   if TrimSpace literal \<noteq> [] then
                     (case GenerateNewToken literal literalStart (columnPosition l') (linePosition l') of
                        Inl e \<Rightarrow> Inl e
                      | Inr token \<Rightarrow> columnLoop lines line l' (tokens @ [token]))
                   else columnLoop lines line l' tokens))
      else Inr (l, tokens))"
  by pat_completeness auto
termination
  apply (relation "measures [\<lambda>(lines, line, l, tokens). length lines - linePosition l,
                          \<lambda>(lines, line, l, tokens). length line - columnPosition l]")
  apply simp_all
  subgoal for lines line l x xa xb xc y
    using rawLoop_bounds[of lines "l\<lparr>columnPosition := Suc (columnPosition l)\<rparr>"
        "[line ! columnPosition l]" xc y]
    by auto
  subgoal for lines line l x xa b xb y ba
    using generateLiteral_progress[of l line xb y] by auto
  subgoal for lines line l x xa b xb y
    using generateLiteral_progress[of l line xb y] by auto
  done

declare columnLoop.simps [simp del]

lemma columnLoop_line_mono:
  "columnLoop lines line l tokens = Inr (l', tokens') \<Longrightarrow>
     linePosition l \<le> linePosition l' \<and> commentPrefixes l' = commentPrefixes l \<and> input l' = input l"
proof (induction lines line l tokens rule: columnLoop.induct)
  case (1 lines line l tokens)
  show ?case
  proof (cases "columnPosition l < length line")
    case False
    with "1.prems" show ?thesis by (subst (asm) columnLoop.simps) auto
  next
    case inside: True
    show ?thesis
    proof (cases "isWhitespace (line ! columnPosition l)")
      case True
      with "1.prems" inside
      have "columnLoop lines line (l\<lparr>columnPosition := columnPosition l + 1\<rparr>) tokens = Inr (l', tokens')"
        by (subst (asm) columnLoop.simps) (simp add: Let_def)
      from "1.IH"(1)[OF inside refl True this] show ?thesis by simp
    next
      case notws: False
      show ?thesis
      proof (cases "line ! columnPosition l = backtick")
        case True
        obtain l1 content where r: "rawLoop lines (l\<lparr>columnPosition := columnPosition l + 1\<rparr>) [backtick] = (l1, content)"
          by (cases "rawLoop lines (l\<lparr>columnPosition := columnPosition l + 1\<rparr>) [backtick]") auto
        with "1.prems" inside notws True
        have "columnLoop lines line l1
                (tokens @ [\<lparr>Type = STRING, Literal = content, Start = columnPosition l,
                                 End = columnPosition l1, Line = linePosition l\<rparr>]) = Inr (l', tokens')"
          by (subst (asm) columnLoop.simps) (simp add: Let_def)
        from "1.IH"(2)[OF inside refl notws True refl refl r[symmetric] this] rawLoop_bounds[OF r]
        show ?thesis by simp
      next
        case False
        from "1.prems" inside notws False
        obtain lit l1 where g: "generateLiteral l line = Inr (lit, l1)"
          by (subst (asm) columnLoop.simps) (auto simp: Let_def split: sum.splits)
        note gp = generateLiteral_progress[OF g]
        show ?thesis
        proof (cases "TrimSpace lit \<noteq> []")
          case True
          from "1.prems" inside notws False g True
          obtain token where t: "GenerateNewToken lit (columnPosition l) (columnPosition l1) (linePosition l1) = Inr token"
            and c: "columnLoop lines line l1 (tokens @ [token]) = Inr (l', tokens')"
            by (subst (asm) columnLoop.simps) (auto simp: Let_def split: sum.splits)
          from "1.IH"(3)[OF inside refl notws False refl g refl True t c] gp
          show ?thesis by simp
        next
          case nt: False
          from "1.prems" inside notws False g nt
          have c: "columnLoop lines line l1 tokens = Inr (l', tokens')"
            by (subst (asm) columnLoop.simps) (auto simp: Let_def split: sum.splits)
          from "1.IH"(4)[OF inside refl notws False refl g refl nt c] gp
          show ?thesis by simp
        qed
      qed
    qed
  qed
qed

subsection \<open>The line loop and GenerateTokens\<close>

lemma columnLoop_line_le:
  "columnLoop lines line l tokens = Inr r \<Longrightarrow> linePosition l \<le> linePosition (fst r)"
  using columnLoop_line_mono[of lines line l tokens "fst r" "snd r"] by simp

text \<open>The loop \<^verbatim>\<open>for l.linePosition < len(lines)\<close>.\<close>

function lineLoop :: "string list \<Rightarrow> DraskenLexer \<Rightarrow> Token list \<Rightarrow> error + (DraskenLexer \<times> Token list)" where
  "lineLoop lines l tokens =
     (if linePosition l < length lines then
        (let line = lines ! linePosition l in
         if shouldSkipLine l line then
           lineLoop lines (l\<lparr>linePosition := linePosition l + 1\<rparr>) tokens
         else
           (case columnLoop lines line (l\<lparr>columnPosition := 0\<rparr>) tokens of
              Inl e \<Rightarrow> Inl e
            | Inr (l', tokens') \<Rightarrow>
                lineLoop lines (l'\<lparr>linePosition := linePosition l' + 1\<rparr>) tokens'))
      else Inr (l, tokens))"
  by pat_completeness auto
termination
  by (relation "measure (\<lambda>(lines, l, tokens). length lines - linePosition l)")
     (auto dest!: columnLoop_line_le)

declare lineLoop.simps [simp del]

text \<open>
  \<^verbatim>\<open>GenerateTokens\<close> returns the tokens; the lexer it has mutated is returned with them,
  so that the final cursor can be named.
\<close>

definition GenerateTokens :: "DraskenLexer \<Rightarrow> error + (Token list \<times> DraskenLexer)" where
  "GenerateTokens l =
     (let tokens = []; lines = Split (input l)
      in case lineLoop lines l tokens of
           Inl e \<Rightarrow> Inl e
         | Inr (l', tokens') \<Rightarrow>
             Inr (tokens' @ [\<lparr>Type = EOF, Literal = [], Start = columnPosition l',
                               End = columnPosition l', Line = linePosition l'\<rparr>], l'))"

subsection \<open>Totality of the steps, and invariant rules for the two loops\<close>

text \<open>
  The rules below are the loop rules of a Hoare logic: a property that holds before a loop
  and is kept by each of its branches holds when the loop ends, and the loop does end
  with a value (it does not panic).
\<close>

lemma TrimSpace_Nil: "TrimSpace [] = []"
  by (simp add: TrimSpace_def trimLeft.simps trimRight.simps firstSpaceWidth_def lastSpaceWidth_def)

lemma tokenType_total: "literal \<noteq> [] \<Longrightarrow> \<exists>ty. tokenType literal = Inr ty"
  by (cases literal) (simp_all add: tokenType_def)

lemma tokenType_kinds: "tokenType literal = Inr ty \<Longrightarrow> ty \<noteq> EOF \<and> ty \<noteq> STRING"
  by (auto simp: tokenType_def split: if_splits list.splits)

lemma GenerateNewToken_Inr:
  "GenerateNewToken literal s e n = Inr t \<longleftrightarrow>
     (\<exists>ty. tokenType literal = Inr ty \<and> t = \<lparr>Type = ty, Literal = literal, Start = s, End = e, Line = n\<rparr>)"
  by (auto simp: GenerateNewToken_def split: sum.splits)

lemma slice_Inr: "a \<le> b \<Longrightarrow> b \<le> length s \<Longrightarrow> slice s a b = Inr (take (b - a) (drop a s))"
  by (simp add: slice_def)

lemma generateLiteral_total:
  assumes "columnPosition l < length line"
  shows "\<exists>lit l'. generateLiteral l line = Inr (lit, l')"
proof -
  let ?s = "columnPosition l"
  have q: "slice line ?s (quoteLoop line q (Suc ?s)) = Inr (take (quoteLoop line q (Suc ?s) - ?s) (drop ?s line))" for q
    using quoteLoop_bounds[of "Suc ?s" line q] assms by (intro slice_Inr) simp_all
  have n: "slice line ?s (numberLoop line ?s d) = Inr (take (numberLoop line ?s d - ?s) (drop ?s line))" for d
    using numberLoop_bounds[of "?s" line d] assms by (intro slice_Inr) simp_all
  have i: "slice line ?s (identLoop line ?s) = Inr (take (identLoop line ?s - ?s) (drop ?s line))"
    using identLoop_bounds[of "?s" line] assms by (intro slice_Inr) simp_all
  show ?thesis
    using assms by (simp add: generateLiteral_def Let_def q n i)
qed


lemma columnLoop_rule:
  assumes init: "I l tokens"
    and ws: "\<And>l tokens. I l tokens \<Longrightarrow> columnPosition l < length line \<Longrightarrow>
               isWhitespace (line ! columnPosition l) \<Longrightarrow>
               I (l\<lparr>columnPosition := columnPosition l + 1\<rparr>) tokens"
    and raw: "\<And>l tokens l1 content. I l tokens \<Longrightarrow> columnPosition l < length line \<Longrightarrow>
               line ! columnPosition l = backtick \<Longrightarrow>
               rawLoop lines (l\<lparr>columnPosition := columnPosition l + 1\<rparr>) [backtick] = (l1, content) \<Longrightarrow>
               I l1 (tokens @ [\<lparr>Type = STRING, Literal = content, Start = columnPosition l,
                                 End = columnPosition l1, Line = linePosition l\<rparr>])"
    and lit: "\<And>l tokens literal l1 ty. I l tokens \<Longrightarrow> columnPosition l < length line \<Longrightarrow>
               \<not> isWhitespace (line ! columnPosition l) \<Longrightarrow> line ! columnPosition l \<noteq> backtick \<Longrightarrow>
               generateLiteral l line = Inr (literal, l1) \<Longrightarrow> TrimSpace literal \<noteq> [] \<Longrightarrow>
               tokenType literal = Inr ty \<Longrightarrow>
               I l1 (tokens @ [\<lparr>Type = ty, Literal = literal, Start = columnPosition l,
                                 End = columnPosition l1, Line = linePosition l1\<rparr>])"
    and nolit: "\<And>l tokens literal l1. I l tokens \<Longrightarrow> columnPosition l < length line \<Longrightarrow>
               \<not> isWhitespace (line ! columnPosition l) \<Longrightarrow> line ! columnPosition l \<noteq> backtick \<Longrightarrow>
               generateLiteral l line = Inr (literal, l1) \<Longrightarrow> TrimSpace literal = [] \<Longrightarrow>
               I l1 tokens"
  shows "\<exists>l' tokens'. columnLoop lines line l tokens = Inr (l', tokens') \<and> I l' tokens'
           \<and> \<not> columnPosition l' < length line"
proof -
  have "ls = lines \<Longrightarrow> ln = line \<Longrightarrow> I l tokens \<Longrightarrow>
        \<exists>l' tokens'. columnLoop ls ln l tokens = Inr (l', tokens') \<and> I l' tokens'
           \<and> \<not> columnPosition l' < length ln" for ls ln
  proof (induction ls ln l tokens rule: columnLoop.induct)
    case (1 ls ln l tokens)
    note ls = \<open>ls = lines\<close> and ln = \<open>ln = line\<close> and I = \<open>I l tokens\<close>
    show ?case
    proof (cases "columnPosition l < length ln")
      case False
      with I show ?thesis by (subst columnLoop.simps) simp
    next
      case inside: True
      show ?thesis
      proof (cases "isWhitespace (ln ! columnPosition l)")
        case True
        have eq: "columnLoop ls ln l tokens
                    = columnLoop ls ln (l\<lparr>columnPosition := columnPosition l + 1\<rparr>) tokens"
          using inside True by (subst columnLoop.simps) (simp add: Let_def)
        from "1.IH"(1)[OF inside refl True ls ln ws[OF I inside[unfolded ln] True[unfolded ln]]]
        show ?thesis unfolding eq .
      next
        case notws: False
        show ?thesis
        proof (cases "ln ! columnPosition l = backtick")
          case True
          obtain l1 content where r: "rawLoop ls (l\<lparr>columnPosition := columnPosition l + 1\<rparr>) [backtick] = (l1, content)"
            by (cases "rawLoop ls (l\<lparr>columnPosition := columnPosition l + 1\<rparr>) [backtick]") auto
          have eq: "columnLoop ls ln l tokens
                    = columnLoop ls ln l1
                        (tokens @ [\<lparr>Type = STRING, Literal = content, Start = columnPosition l,
                                   End = columnPosition l1, Line = linePosition l\<rparr>])"
            using inside notws True r by (subst columnLoop.simps) (simp add: Let_def)
          from "1.IH"(2)[OF inside refl notws True refl refl r[symmetric] ls ln
              raw[OF I inside[unfolded ln] True[unfolded ln] r[unfolded ls]]]
          show ?thesis unfolding eq .
        next
          case False
          from generateLiteral_total[OF inside]
          obtain literal l1 where g: "generateLiteral l ln = Inr (literal, l1)" by blast
          show ?thesis
          proof (cases "TrimSpace literal \<noteq> []")
            case True
            then have "literal \<noteq> []" using TrimSpace_Nil by auto
            from tokenType_total[OF this] obtain ty where ty: "tokenType literal = Inr ty" by blast
            let ?tok = "\<lparr>Type = ty, Literal = literal, Start = columnPosition l,
                                   End = columnPosition l1, Line = linePosition l1\<rparr>"
            have t: "GenerateNewToken literal (columnPosition l) (columnPosition l1) (linePosition l1) = Inr ?tok"
              using ty by (simp add: GenerateNewToken_Inr)
            have eq: "columnLoop ls ln l tokens = columnLoop ls ln l1 (tokens @ [?tok])"
              using inside notws False g True t by (subst columnLoop.simps) (simp add: Let_def)
            from "1.IH"(3)[OF inside refl notws False refl g refl True t ls ln
                lit[OF I inside[unfolded ln] notws[unfolded ln] False[unfolded ln] g[unfolded ln] True ty]]
            show ?thesis unfolding eq .
          next
            case nt: False
            then have nt': "TrimSpace literal = []" by simp
            have eq: "columnLoop ls ln l tokens = columnLoop ls ln l1 tokens"
              using inside notws False g nt by (subst columnLoop.simps) (simp add: Let_def)
            from "1.IH"(4)[OF inside refl notws False refl g refl nt ls ln
                nolit[OF I inside[unfolded ln] notws[unfolded ln] False[unfolded ln] g[unfolded ln] nt']]
            show ?thesis unfolding eq .
          qed
        qed
      qed
    qed
  qed
  from this[OF refl refl init] show ?thesis .
qed

lemma lineLoop_rule:
  assumes init: "I l tokens"
    and skip: "\<And>l tokens. I l tokens \<Longrightarrow> linePosition l < length lines \<Longrightarrow>
               shouldSkipLine l (lines ! linePosition l) \<Longrightarrow>
               I (l\<lparr>linePosition := linePosition l + 1\<rparr>) tokens"
    and scan: "\<And>l tokens l' tokens'. I l tokens \<Longrightarrow> linePosition l < length lines \<Longrightarrow>
               \<not> shouldSkipLine l (lines ! linePosition l) \<Longrightarrow>
               columnLoop lines (lines ! linePosition l) (l\<lparr>columnPosition := 0\<rparr>) tokens = Inr (l', tokens') \<Longrightarrow>
               I (l'\<lparr>linePosition := linePosition l' + 1\<rparr>) tokens'"
  shows "\<exists>l' tokens'. lineLoop lines l tokens = Inr (l', tokens') \<and> I l' tokens'
           \<and> \<not> linePosition l' < length lines"
proof -
  have "ls = lines \<Longrightarrow> I l tokens \<Longrightarrow>
        \<exists>l' tokens'. lineLoop ls l tokens = Inr (l', tokens') \<and> I l' tokens'
           \<and> \<not> linePosition l' < length ls" for ls
  proof (induction ls l tokens rule: lineLoop.induct)
    case (1 ls l tokens)
    note ls = \<open>ls = lines\<close> and I = \<open>I l tokens\<close>
    show ?case
    proof (cases "linePosition l < length ls")
      case False
      with I show ?thesis by (subst lineLoop.simps) simp
    next
      case inside: True
      show ?thesis
      proof (cases "shouldSkipLine l (ls ! linePosition l)")
        case True
        have eq: "lineLoop ls l tokens = lineLoop ls (l\<lparr>linePosition := linePosition l + 1\<rparr>) tokens"
          using inside True by (subst lineLoop.simps) (simp add: Let_def)
        from "1.IH"(1)[OF inside refl True ls skip[OF I inside[unfolded ls] True[unfolded ls]]]
        show ?thesis unfolding eq .
      next
        case False
        from columnLoop_rule[of "\<lambda>_ _. True" "l\<lparr>columnPosition := 0\<rparr>" tokens "ls ! linePosition l" ls]
        obtain l' tokens' where c: "columnLoop ls (ls ! linePosition l) (l\<lparr>columnPosition := 0\<rparr>) tokens = Inr (l', tokens')"
          by auto
        have eq: "lineLoop ls l tokens = lineLoop ls (l'\<lparr>linePosition := linePosition l' + 1\<rparr>) tokens'"
          using inside False c by (subst lineLoop.simps) (simp add: Let_def)
        from "1.IH"(2)[OF inside refl False c refl ls
            scan[OF I inside[unfolded ls] False[unfolded ls] c[unfolded ls]]]
        show ?thesis unfolding eq .
      qed
    qed
  qed
  from this[OF refl init] show ?thesis .
qed

subsection \<open>Facts about the literal extractor\<close>

lemma byte_char_of: "byte (char_of (n::nat)) = n mod 256"
  by (simp add: byte_def)

lemma byte_lt_256: "byte c < 256"
  by (simp add: byte_def)

lemma byte_eq_iff: "byte c = byte d \<longleftrightarrow> c = d"
  by (simp add: byte_def)



lemma punctuation_ascii: "isPunctuation ch \<Longrightarrow> byte ch < 128"
  by (auto simp: isPunctuation_def byte_def)





subsection \<open>Facts about the raw-string loops\<close>

lemma rawLineLoop_content:
  "rawLineLoop line col content = (col', content', t) \<Longrightarrow> \<exists>ext. content' = content @ ext"
proof (induction line col content rule: rawLineLoop.induct)
  case (1 line col content)
  show ?case using "1.prems" "1.IH"
    by (subst (asm) rawLineLoop.simps) (auto simp: Let_def split: if_splits)
qed

lemma rawLoop_content:
  "rawLoop lines l content = (l', content') \<Longrightarrow>
     (\<exists>ext. content' = content @ ext)
     \<and> (linePosition l' \<noteq> linePosition l \<longrightarrow> LF \<in> set content')"
proof (induction lines l content rule: rawLoop.induct)
  case (1 lines l content)
  show ?case
  proof (cases "linePosition l < length lines")
    case False
    with "1.prems" show ?thesis by (subst (asm) rawLoop.simps) auto
  next
    case True
    obtain col c t where r: "rawLineLoop (lines ! linePosition l) (columnPosition l) content = (col, c, t)"
      by (cases "rawLineLoop (lines ! linePosition l) (columnPosition l) content") auto
    from rawLineLoop_content[OF r] obtain e1 where c: "c = content @ e1" by blast
    show ?thesis
    proof (cases t)
      case True
      with "1.prems" r \<open>linePosition l < length lines\<close> c
      show ?thesis by (subst (asm) rawLoop.simps) auto
    next
      case False
      with "1.prems" r \<open>linePosition l < length lines\<close>
      have "rawLoop lines (l\<lparr>linePosition := linePosition l + 1, columnPosition := 0\<rparr>) (c @ [LF]) = (l', content')"
        by (subst (asm) rawLoop.simps) auto
      from "1.IH"[OF \<open>linePosition l < length lines\<close> r[symmetric] refl False this]
      obtain e2 where "content' = (c @ [LF]) @ e2" by blast
      with c show ?thesis by auto
    qed
  qed
qed

subsection \<open>The result of GenerateTokens\<close>

lemma GenerateTokens_Inr:
  "GenerateTokens l = Inr (toks, l') \<longleftrightarrow>
     (\<exists>tokens'. lineLoop (Split (input l)) l [] = Inr (l', tokens')
        \<and> toks = tokens' @ [\<lparr>Type = EOF, Literal = [], Start = columnPosition l',
                                End = columnPosition l', Line = linePosition l'\<rparr>])"
  by (auto simp: GenerateTokens_def Let_def split: sum.splits)

subsection \<open>Lines, prefixes and lines without a backtick\<close>

lemma HasPrefix_iff: "HasPrefix s pre \<longleftrightarrow> (\<exists>rest. s = pre @ rest)"
proof
  assume "HasPrefix s pre"
  then have "s = pre @ drop (length pre) s"
    by (metis HasPrefix_def append_take_drop_id)
  then show "\<exists>rest. s = pre @ rest" ..
next
  assume "\<exists>rest. s = pre @ rest"
  then show "HasPrefix s pre" by (auto simp: HasPrefix_def)
qed

lemma shouldSkipLine_prefixes:
  "commentPrefixes l = commentPrefixes l2 \<Longrightarrow> shouldSkipLine l line = shouldSkipLine l2 line"
  by (simp add: shouldSkipLine_def)

lemma Split_set: "ln \<in> set (Split s) \<Longrightarrow> set ln \<subseteq> set s"
proof (induction s arbitrary: ln)
  case Nil
  then show ?case by simp
next
  case (Cons c cs)
  show ?case
  proof (cases "c = LF")
    case True
    with Cons show ?thesis by auto
  next
    case False
    obtain x xs where sp: "Split cs = x # xs"
      by (cases "Split cs") (auto split: if_splits list.splits elim: Split.elims)
    with False Cons.prems have "ln = c # x \<or> ln \<in> set xs" by auto
    then show ?thesis
    proof
      assume "ln = c # x"
      moreover have "set x \<subseteq> set cs" using Cons.IH[of x] sp by simp
      ultimately show ?thesis by auto
    next
      assume "ln \<in> set xs"
      then have "set ln \<subseteq> set cs" using Cons.IH[of ln] sp by simp
      then show ?thesis by auto
    qed
  qed
qed

text \<open>
  One pass of the column loop over a line without a backtick: the line index stays, and
  every token it appends carries that index; it appends one only at a character that is
  not whitespace.
\<close>

lemma columnLoop_without_backtick:
  assumes nb: "backtick \<notin> set line"
    and c: "columnLoop lines line l tokens = Inr (l', tokens')"
  shows "linePosition l' = linePosition l \<and> commentPrefixes l' = commentPrefixes l
       \<and> (\<exists>new. tokens' = tokens @ new \<and> list_all (\<lambda>t. Line t = linePosition l) new
            \<and> (new \<noteq> [] \<longrightarrow> (\<exists>c \<in> set line. \<not> isWhitespace c)))"
proof -
  let ?I = "\<lambda>l2 tokens2. linePosition l2 = linePosition l \<and> commentPrefixes l2 = commentPrefixes l
       \<and> (\<exists>new. tokens2 = tokens @ new \<and> list_all (\<lambda>t. Line t = linePosition l) new
            \<and> (new \<noteq> [] \<longrightarrow> (\<exists>c \<in> set line. \<not> isWhitespace c)))"
  have "\<exists>l' tokens'. columnLoop lines line l tokens = Inr (l', tokens')
          \<and> ?I l' tokens' \<and> \<not> columnPosition l' < length line"
  proof (rule columnLoop_rule[where I = ?I], goal_cases)
    case 1
    show ?case by simp
  next
    case (2 l2 tokens2)
    then show ?case by simp
  next
    case (3 l2 tokens2 l1 content)
    from 3(2,3) have "backtick \<in> set line" by (metis nth_mem)
    with nb show ?case by simp
  next
    case (4 l2 tokens2 literal l1 ty)
    from 4(1) obtain new where n: "tokens2 = tokens @ new" "list_all (\<lambda>t. Line t = linePosition l) new"
      by blast
    from 4(2,3) have ex: "\<exists>c \<in> set line. \<not> isWhitespace c" by (metis nth_mem)
    from generateLiteral_progress[OF 4(5)] 4(1) n ex
    show ?case by simp
  next
    case (5 l2 tokens2 literal l1)
    from generateLiteral_progress[OF 5(5)] 5(1) show ?case by simp
  qed
  with c show ?thesis by simp
qed

subsection \<open>Facts about the classifier\<close>

lemma tokenType_classifySpec:
  "literal \<noteq> [] \<Longrightarrow> tokenType literal = Inr (classifySpec literal)"
  by (cases literal) (simp_all add: tokenType_def classifySpec_def symbolTable_def isUnderscore_def)

lemma high_byte_class:
  "128 \<le> byte c \<Longrightarrow>
     \<not> isDigit c \<and> \<not> isLetter c \<and> c \<noteq> CHR ''_'' \<and> \<not> isOperator c \<and> \<not> isPunctuation c"
  by (auto simp: isDigit_def isLetter_def isOperator_def isPunctuation_def byte_def)

lemma tokenType_unclassified:
  assumes "\<not> isDigit c" "\<not> isLetter c" "c \<noteq> CHR ''_''" "\<not> isOperator c" "\<not> isPunctuation c"
  shows "tokenType (c # cs) = Inr ILLEGAL"
  using assms
  by (auto simp: tokenType_def isOperator_def isPunctuation_def isUnderscore_def)

lemma tokenType_raw: "tokenType (backtick # ext) = Inr ILLEGAL"
  by (rule tokenType_unclassified)
     (simp_all add: isDigit_def isLetter_def isOperator_def isPunctuation_def byte_def)

subsection \<open>Facts about TrimSpace on one-character literals\<close>

lemma trimLeft_Nil: "trimLeft [] = []"
  by (subst trimLeft.simps) (simp add: firstSpaceWidth_def)

lemma trimRight_Nil: "trimRight [] = []"
  by (subst trimRight.simps) (simp add: lastSpaceWidth_def)

lemma TrimSpace_single: "TrimSpace [c] = [] \<longleftrightarrow> asciiSpace c"
proof (cases "asciiSpace c")
  case True
  then have "firstSpaceWidth [c] = 1" by (simp add: firstSpaceWidth_def)
  then have "trimLeft [c] = trimLeft []" by (subst trimLeft.simps) simp
  then show ?thesis using True by (simp add: TrimSpace_def trimLeft_Nil trimRight_Nil)
next
  case False
  then have f: "firstSpaceWidth [c] = 0"
    by (simp add: firstSpaceWidth_def spaceRunes2_def spaceRunes3_def)
  from False have l: "lastSpaceWidth [c] = 0"
    by (simp add: lastSpaceWidth_def spaceRunes2_def spaceRunes3_def)
  have "trimLeft [c] = [c]" using f by (subst trimLeft.simps) simp
  moreover have "trimRight [c] = [c]" using l by (subst trimRight.simps) simp
  ultimately show ?thesis using False by (simp add: TrimSpace_def)
qed

lemma TrimSpace_pair:
  assumes "\<not> asciiSpace a" "\<not> asciiSpace b"
  shows "TrimSpace [a, b] = [] \<longleftrightarrow> [a, b] \<in> set spaceRunes2"
proof (cases "[a, b] \<in> set spaceRunes2")
  case True
  with assms have "firstSpaceWidth [a, b] = 2" by (simp add: firstSpaceWidth_def)
  then have "trimLeft [a, b] = trimLeft []" by (subst trimLeft.simps) simp
  then show ?thesis using True by (simp add: TrimSpace_def trimLeft_Nil trimRight_Nil)
next
  case False
  with assms have f: "firstSpaceWidth [a, b] = 0"
    by (simp add: firstSpaceWidth_def spaceRunes3_def)
  from False assms have l: "lastSpaceWidth [a, b] = 0"
    by (simp add: lastSpaceWidth_def spaceRunes3_def)
  have "trimLeft [a, b] = [a, b]" using f by (subst trimLeft.simps) simp
  moreover have "trimRight [a, b] = [a, b]" using l by (subst trimRight.simps) simp
  ultimately show ?thesis using False by (simp add: TrimSpace_def)
qed

lemma asciiSpace_byte: "asciiSpace x \<Longrightarrow> byte x \<le> 32"
  by (auto simp: asciiSpace_def byte_def)

text \<open>
  The one-character literals that \<^const>\<open>TrimSpace\<close> empties: the six ASCII white-space
  characters, and the bytes 0x85 and 0xA0, which \<^verbatim>\<open>string(ch)\<close> turns into the UTF-8
  encodings of U+0085 and U+00A0.
\<close>

lemma byte_values:
  "byte (CHR 0xC2) = 194" "byte (CHR 0x85) = 133" "byte (CHR 0xA0) = 160"
  by (simp_all add: byte_def)

lemma TrimSpace_byteToString:
  "TrimSpace (byteToString c) = [] \<longleftrightarrow> asciiSpace c \<or> c = CHR 0x85 \<or> c = CHR 0xA0"
proof (cases "byte c < 128")
  case True
  have "c \<noteq> CHR 0x85" using True byte_values(2) by auto
  moreover have "c \<noteq> CHR 0xA0" using True byte_values(3) by auto
  moreover have "byteToString c = [c]" using True by (simp add: byteToString_def)
  ultimately show ?thesis by (simp add: TrimSpace_single)
next
  case False
  define n where "n = byte c"
  define a where "a = char_of (192 + n div 64)"
  define b where "b = char_of (128 + n mod 64)"
  have n: "128 \<le> n" "n < 256" using False byte_lt_256[of c] by (simp_all add: n_def)
  have ba: "byte a = 192 + n div 64" unfolding a_def byte_char_of using n by simp
  have bb: "byte b = 128 + n mod 64" unfolding b_def byte_char_of by simp
  have na: "\<not> asciiSpace a" using asciiSpace_byte[of a] ba by linarith
  have nb: "\<not> asciiSpace b" using asciiSpace_byte[of b] bb by linarith
  have nc: "\<not> asciiSpace c" using asciiSpace_byte[of c] n unfolding n_def by linarith
  have a: "a = CHR 0xC2 \<longleftrightarrow> n div 64 = 2"
    using byte_eq_iff[of a "CHR 0xC2"] ba byte_values(1) by auto
  have b1: "b = CHR 0x85 \<longleftrightarrow> n mod 64 = 5"
    using byte_eq_iff[of b "CHR 0x85"] bb byte_values(2) by auto
  have b2: "b = CHR 0xA0 \<longleftrightarrow> n mod 64 = 32"
    using byte_eq_iff[of b "CHR 0xA0"] bb byte_values(3) by auto
  have c1: "c = CHR 0x85 \<longleftrightarrow> n = 133"
    using byte_eq_iff[of c "CHR 0x85"] byte_values(2) by (simp only: n_def)
  have c2: "c = CHR 0xA0 \<longleftrightarrow> n = 160"
    using byte_eq_iff[of c "CHR 0xA0"] byte_values(3) by (simp only: n_def)
  have "[a, b] \<in> set spaceRunes2 \<longleftrightarrow> a = CHR 0xC2 \<and> (b = CHR 0x85 \<or> b = CHR 0xA0)"
    unfolding spaceRunes2_def by auto
  also have "\<dots> \<longleftrightarrow> n div 64 = 2 \<and> (n mod 64 = 5 \<or> n mod 64 = 32)"
    unfolding a b1 b2 ..
  also have "\<dots> \<longleftrightarrow> n = 133 \<or> n = 160"
  proof
    assume h: "n div 64 = 2 \<and> (n mod 64 = 5 \<or> n mod 64 = 32)"
    have "n = 64 * (n div 64) + n mod 64" by simp
    with h show "n = 133 \<or> n = 160" by linarith
  next
    assume "n = 133 \<or> n = 160"
    then show "n div 64 = 2 \<and> (n mod 64 = 5 \<or> n mod 64 = 32)" by auto
  qed
  also have "\<dots> \<longleftrightarrow> c = CHR 0x85 \<or> c = CHR 0xA0" unfolding c1 c2 ..
  finally have r: "[a, b] \<in> set spaceRunes2 \<longleftrightarrow> c = CHR 0x85 \<or> c = CHR 0xA0" .
  have "byteToString c = [a, b]" using False unfolding byteToString_def a_def b_def n_def by simp
  then show ?thesis using TrimSpace_pair[OF na nb] r nc by simp
qed

subsection \<open>Characters of no class\<close>

text \<open>
  A character of no class: the column loop sends it to \<^const>\<open>generateLiteral\<close> (it is
  neither whitespace nor a backtick) and no branch of \<^const>\<open>generateLiteral\<close> but the
  last takes it.
\<close>

definition unclassified :: "char \<Rightarrow> bool" where
  "unclassified c \<longleftrightarrow>
     \<not> isWhitespace c \<and> c \<noteq> backtick \<and> c \<noteq> dquote \<and> c \<noteq> squote \<and> \<not> isDigit c
     \<and> \<not> isLetter c \<and> c \<noteq> CHR ''_'' \<and> \<not> isOperator c \<and> \<not> isPunctuation c"

lemma generateLiteral_unclassified:
  assumes "columnPosition l < length line" "unclassified (line ! columnPosition l)"
  shows "generateLiteral l line
           = Inr (byteToString (line ! columnPosition l), l\<lparr>columnPosition := columnPosition l + 1\<rparr>)"
proof -
  have "line ! columnPosition l \<noteq> CHR ''.''"
    using assms(2) by (auto simp: unclassified_def isPunctuation_def)
  with assms show ?thesis
    by (simp add: generateLiteral_def Let_def unclassified_def)
qed

lemma tokenType_byteToString_unclassified:
  assumes "unclassified c"
  shows "tokenType (byteToString c) = Inr ILLEGAL"
proof (cases "byte c < 128")
  case True
  with assms show ?thesis
    by (simp add: byteToString_def tokenType_unclassified unclassified_def)
next
  case False
  have "byte (char_of (192 + byte c div 64)) = 192 + byte c div 64"
    using byte_lt_256[of c] by (simp add: byte_char_of)
  then have "128 \<le> byte (char_of (192 + byte c div 64))" by simp
  from high_byte_class[OF this] False show ?thesis
    by (simp add: byteToString_def tokenType_unclassified)
qed

lemma numberLoop_span:
  "i \<le> j \<Longrightarrow> j < numberLoop line i d \<Longrightarrow> isDigit (line ! j) \<or> line ! j = CHR ''.''"
proof (induction line i d rule: numberLoop.induct)
  case (1 line i hasDot)
  show ?case
  proof (cases "j = i")
    case True
    from "1.prems"(2) True have "i < length line \<and> (line ! i = CHR ''.'' \<or> isDigit (line ! i))"
      by (subst (asm) numberLoop.simps) (auto split: if_splits)
    with True show ?thesis by auto
  next
    case False
    with "1.prems"(1) have le: "i + 1 \<le> j" by simp
    from "1.prems"(2) False "1.prems"(1)
    consider (dot) "i < length line" "line ! i = CHR ''.''" "\<not> hasDot" "j < numberLoop line (i + 1) True"
      | (dig) "i < length line" "line ! i \<noteq> CHR ''.''" "\<not> \<not> isDigit (line ! i)" "j < numberLoop line (i + 1) hasDot"
      by (subst (asm) numberLoop.simps) (auto split: if_splits)
    then show ?thesis
    proof cases
      case dot
      from "1.IH"(1)[OF dot(1) dot(2) dot(3) le dot(4)] show ?thesis .
    next
      case dig
      from "1.IH"(2)[OF dig(1) dig(2) dig(3) le dig(4)] show ?thesis .
    qed
  qed
qed

lemma identLoop_span:
  "i \<le> j \<Longrightarrow> j < identLoop line i \<Longrightarrow> isAlphanumericOrUnderscore (line ! j)"
proof (induction line i rule: identLoop.induct)
  case (1 line i)
  from "1.prems"(2) "1.prems"(1)
  have c: "i < length line \<and> isAlphanumericOrUnderscore (line ! i)" and n: "j < identLoop line (i + 1)"
    by (subst (asm) identLoop.simps, auto split: if_splits)+
  show ?case
  proof (cases "j = i")
    case True
    with c show ?thesis by simp
  next
    case False
    with "1.prems"(1) have "i + 1 \<le> j" by simp
    from "1.IH"[OF c this n] show ?thesis .
  qed
qed

text \<open>
  On a line without quotes a literal runs over no character of no class, except that it
  may start with one.
\<close>

lemma generateLiteral_span:
  assumes nq: "dquote \<notin> set line" "squote \<notin> set line"
    and g: "generateLiteral l line = Inr (lit, l1)"
    and j: "columnPosition l < j" "j < columnPosition l1"
  shows "\<not> unclassified (line ! j)"
proof -
  let ?s = "columnPosition l"
  from generateLiteral_progress[OF g] have lt: "?s < length line" by simp
  with nq have q: "line ! ?s \<noteq> dquote" "line ! ?s \<noteq> squote" by (metis nth_mem)+
  from g lt q
  consider (num) "columnPosition l1 = numberLoop line ?s False"
    | (ident) "columnPosition l1 = identLoop line ?s"
    | (eq) "columnPosition l1 = ?s + 2" "line ! (?s + 1) = CHR ''=''"
    | (one) "columnPosition l1 = ?s + 1"
    by (auto simp: generateLiteral_def Let_def split: if_splits sum.splits)
  then show ?thesis
  proof cases
    case num
    with j numberLoop_span[of ?s j line False]
    have "isDigit (line ! j) \<or> line ! j = CHR ''.''" by simp
    then show ?thesis by (auto simp: unclassified_def isPunctuation_def)
  next
    case ident
    with j identLoop_span[of ?s j line]
    have "isAlphanumericOrUnderscore (line ! j)" by simp
    then show ?thesis
      by (auto simp: unclassified_def isAlphanumericOrUnderscore_def isUnderscore_def)
  next
    case eq
    with j have "j = ?s + 1" by simp
    with eq(2) show ?thesis by (simp add: unclassified_def isOperator_def)
  next
    case one
    with j show ?thesis by simp
  qed
qed

section \<open>The claims\<close>

subsection \<open>C1: the EOF token, and characters of no class\<close>

lemma columnLoop_no_EOF:
  assumes "EOF \<notin> Type ` set tokens"
  shows "\<exists>l' tokens'. columnLoop lines line l tokens = Inr (l', tokens') \<and> EOF \<notin> Type ` set tokens'"
proof -
  from columnLoop_rule[of "\<lambda>_ tokens. EOF \<notin> Type ` set tokens" l tokens line lines] assms
  show ?thesis by (auto dest: tokenType_kinds)
qed

lemma lineLoop_no_EOF:
  "\<exists>l' tokens'. lineLoop lines l [] = Inr (l', tokens') \<and> EOF \<notin> Type ` set tokens'"
proof -
  have "\<exists>l' tokens'. lineLoop lines l [] = Inr (l', tokens')
          \<and> EOF \<notin> Type ` set tokens' \<and> \<not> linePosition l' < length lines"
  proof (rule lineLoop_rule[where I = "\<lambda>_ tokens. EOF \<notin> Type ` set tokens"], goal_cases)
    case 1
    show ?case by simp
  next
    case (2 l tokens)
    then show ?case by simp
  next
    case (3 l tokens l' tokens')
    from columnLoop_no_EOF[OF 3(1), of lines "lines ! linePosition l" "l\<lparr>columnPosition := 0\<rparr>"] 3(4)
    show ?case by simp
  qed
  then show ?thesis by blast
qed

text \<open>
  The invariant of the two loops for claim C1. The characters of no class in the columns
  below \<open>n\<close> of line \<open>i\<close> are settled: one whose literal \<^const>\<open>TrimSpace\<close> empties has no
  token at its place, every other one has its ILLEGAL token in the list.
\<close>

definition settled :: "nat \<Rightarrow> string \<Rightarrow> nat \<Rightarrow> Token list \<Rightarrow> bool" where
  "settled i line n toks \<longleftrightarrow>
     (\<forall>j. j < n \<and> j < length line \<and> unclassified (line ! j) \<longrightarrow>
        (if TrimSpace (byteToString (line ! j)) = []
         then \<forall>t \<in> set toks. \<not> (Line t = i \<and> Start t = j)
         else \<lparr>Type = ILLEGAL, Literal = byteToString (line ! j), Start = j, End = j + 1, Line = i\<rparr>
                \<in> set toks))"

lemma settled_append:
  assumes "settled i line n toks" "\<forall>t \<in> set new. Line t \<noteq> i"
  shows "settled i line n (toks @ new)"
  using assms unfolding settled_def by (auto split: if_splits)

lemma settled_less:
  assumes s: "settled i line n toks" and le: "m \<le> n"
  shows "settled i line m toks"
  unfolding settled_def
proof (intro allI impI)
  fix j
  assume "j < m \<and> j < length line \<and> unclassified (line ! j)"
  with le have "j < n \<and> j < length line \<and> unclassified (line ! j)" by simp
  with s show "if TrimSpace (byteToString (line ! j)) = []
        then \<forall>t \<in> set toks. \<not> (Line t = i \<and> Start t = j)
        else \<lparr>Type = ILLEGAL, Literal = byteToString (line ! j), Start = j, End = j + 1, Line = i\<rparr>
               \<in> set toks"
    unfolding settled_def by blast
qed

lemma settled_step:
  assumes s: "settled i line n toks"
    and b: "\<forall>t \<in> set toks. Line t < i \<or> (Line t = i \<and> Start t < n)"
    and m: "n < m"
    and mid: "\<And>j. n < j \<Longrightarrow> j < m \<Longrightarrow> j < length line \<Longrightarrow> \<not> unclassified (line ! j)"
    and new: "\<forall>t \<in> set new. Line t = i \<and> Start t = n"
    and at: "n < length line \<Longrightarrow> unclassified (line ! n) \<Longrightarrow>
              (if TrimSpace (byteToString (line ! n)) = [] then new = []
               else new = [\<lparr>Type = ILLEGAL, Literal = byteToString (line ! n), Start = n,
                             End = n + 1, Line = i\<rparr>])"
  shows "settled i line m (toks @ new)"
  unfolding settled_def
proof (intro allI impI)
  fix j
  assume h: "j < m \<and> j < length line \<and> unclassified (line ! j)"
  let ?tk = "\<lparr>Type = ILLEGAL, Literal = byteToString (line ! j), Start = j, End = j + 1, Line = i\<rparr>"
  show "if TrimSpace (byteToString (line ! j)) = []
        then \<forall>t \<in> set (toks @ new). \<not> (Line t = i \<and> Start t = j)
        else ?tk \<in> set (toks @ new)"
  proof (cases "j < n")
    case True
    with s h have old: "if TrimSpace (byteToString (line ! j)) = []
        then \<forall>t \<in> set toks. \<not> (Line t = i \<and> Start t = j) else ?tk \<in> set toks"
      unfolding settled_def by blast
    from new True have "\<forall>t \<in> set new. \<not> (Line t = i \<and> Start t = j)" by auto
    with old show ?thesis by (auto split: if_splits)
  next
    case False
    with h mid[of j] have jn: "j = n" by (cases "n < j") auto
    from b have none: "\<forall>t \<in> set toks. \<not> (Line t = i \<and> Start t = n)" by auto
    from at h jn have a: "if TrimSpace (byteToString (line ! n)) = [] then new = []
               else new = [\<lparr>Type = ILLEGAL, Literal = byteToString (line ! n), Start = n,
                             End = n + 1, Line = i\<rparr>]" by simp
    show ?thesis
    proof (cases "TrimSpace (byteToString (line ! n)) = []")
      case True
      with a none jn show ?thesis by simp
    next
      case False
      with a jn show ?thesis by simp
    qed
  qed
qed

lemma columnLoop_settles:
  assumes nb: "backtick \<notin> set line" and nq: "dquote \<notin> set line" "squote \<notin> set line"
    and old: "\<forall>t \<in> set tokens. Line t < linePosition l"
    and c: "columnLoop lines line (l\<lparr>columnPosition := 0\<rparr>) tokens = Inr (l', tokens')"
  shows "settled (linePosition l) line (length line) tokens'"
proof -
  let ?i = "linePosition l"
  let ?K = "\<lambda>l2 toks2. linePosition l2 = ?i \<and> settled ?i line (columnPosition l2) toks2
              \<and> (\<forall>t \<in> set toks2. Line t < ?i \<or> (Line t = ?i \<and> Start t < columnPosition l2))"
  have "\<exists>l' tokens'. columnLoop lines line (l\<lparr>columnPosition := 0\<rparr>) tokens = Inr (l', tokens')
          \<and> ?K l' tokens' \<and> \<not> columnPosition l' < length line"
  proof (rule columnLoop_rule[where I = ?K], goal_cases)
    case 1
    have "settled ?i line 0 tokens" unfolding settled_def by simp
    with old show ?case by simp
  next
    case (2 l2 toks2)
    then have K: "linePosition l2 = ?i" "settled ?i line (columnPosition l2) toks2"
      "\<forall>t \<in> set toks2. Line t < ?i \<or> (Line t = ?i \<and> Start t < columnPosition l2)" by simp_all
    have nu: "\<not> unclassified (line ! columnPosition l2)"
      using 2(3) by (simp add: unclassified_def)
    from settled_step[OF K(2) K(3), of "columnPosition l2 + 1" "[]"] nu
    have "settled ?i line (columnPosition l2 + 1) toks2" by simp
    with K show ?case by auto
  next
    case (3 l2 toks2 l1 content)
    from 3(2,3) have "backtick \<in> set line" by (metis nth_mem)
    with nb show ?case by simp
  next
    case (4 l2 toks2 literal l1 ty)
    then have K: "linePosition l2 = ?i" "settled ?i line (columnPosition l2) toks2"
      "\<forall>t \<in> set toks2. Line t < ?i \<or> (Line t = ?i \<and> Start t < columnPosition l2)" by simp_all
    note p = generateLiteral_progress[OF 4(5)]
    let ?tk = "\<lparr>Type = ty, Literal = literal, Start = columnPosition l2,
                 End = columnPosition l1, Line = linePosition l1\<rparr>"
    have at: "if TrimSpace (byteToString (line ! columnPosition l2)) = [] then [?tk] = []
               else [?tk] = [\<lparr>Type = ILLEGAL, Literal = byteToString (line ! columnPosition l2),
                             Start = columnPosition l2, End = columnPosition l2 + 1, Line = ?i\<rparr>]"
      if u: "unclassified (line ! columnPosition l2)"
    proof -
      from generateLiteral_unclassified[OF 4(2) u] 4(5)
      have lit: "literal = byteToString (line ! columnPosition l2)"
        and l1: "l1 = l2\<lparr>columnPosition := columnPosition l2 + 1\<rparr>" by simp_all
      from tokenType_byteToString_unclassified[OF u] 4(7) lit have "ty = ILLEGAL" by simp
      with lit l1 4(6) K(1) show ?thesis by simp
    qed
    have "settled ?i line (columnPosition l1) (toks2 @ [?tk])"
    proof (rule settled_step[OF K(2) K(3)])
      show "columnPosition l2 < columnPosition l1" using p by simp
      show "\<not> unclassified (line ! j)" if "columnPosition l2 < j" "j < columnPosition l1" for j
        using generateLiteral_span[OF nq 4(5) that] .
      show "\<forall>t \<in> set [?tk]. Line t = ?i \<and> Start t = columnPosition l2" using p K(1) by simp
      show "if TrimSpace (byteToString (line ! columnPosition l2)) = [] then [?tk] = []
               else [?tk] = [\<lparr>Type = ILLEGAL, Literal = byteToString (line ! columnPosition l2),
                             Start = columnPosition l2, End = columnPosition l2 + 1, Line = ?i\<rparr>]"
        if "unclassified (line ! columnPosition l2)" using at[OF that] .
    qed
    moreover have "\<forall>t \<in> set (toks2 @ [?tk]). Line t < ?i \<or> (Line t = ?i \<and> Start t < columnPosition l1)"
      using K(3) K(1) p by auto
    ultimately show ?case using p K(1) by simp
  next
    case (5 l2 toks2 literal l1)
    then have K: "linePosition l2 = ?i" "settled ?i line (columnPosition l2) toks2"
      "\<forall>t \<in> set toks2. Line t < ?i \<or> (Line t = ?i \<and> Start t < columnPosition l2)" by simp_all
    note p = generateLiteral_progress[OF 5(5)]
    have at: "if TrimSpace (byteToString (line ! columnPosition l2)) = [] then ([]::Token list) = []
               else [] = [\<lparr>Type = ILLEGAL, Literal = byteToString (line ! columnPosition l2),
                             Start = columnPosition l2, End = columnPosition l2 + 1, Line = ?i\<rparr>]"
      if u: "unclassified (line ! columnPosition l2)"
    proof -
      from generateLiteral_unclassified[OF 5(2) u] 5(5)
      have "literal = byteToString (line ! columnPosition l2)" by simp
      with 5(6) show ?thesis by simp
    qed
    have "settled ?i line (columnPosition l1) (toks2 @ [])"
    proof (rule settled_step[OF K(2) K(3)])
      show "columnPosition l2 < columnPosition l1" using p by simp
      show "\<not> unclassified (line ! j)" if "columnPosition l2 < j" "j < columnPosition l1" for j
        using generateLiteral_span[OF nq 5(5) that] .
      show "\<forall>t \<in> set ([]::Token list). Line t = ?i \<and> Start t = columnPosition l2" by simp
      show "if TrimSpace (byteToString (line ! columnPosition l2)) = [] then ([]::Token list) = []
               else [] = [\<lparr>Type = ILLEGAL, Literal = byteToString (line ! columnPosition l2),
                             Start = columnPosition l2, End = columnPosition l2 + 1, Line = ?i\<rparr>]"
        if "unclassified (line ! columnPosition l2)" using at[OF that] .
    qed
    moreover have "\<forall>t \<in> set toks2. Line t < ?i \<or> (Line t = ?i \<and> Start t < columnPosition l1)"
      using K(3) p by auto
    ultimately show ?case using p K(1) by simp
  qed
  with c have "settled ?i line (columnPosition l') tokens'" and "\<not> columnPosition l' < length line"
    by simp_all
  then show ?thesis using settled_less[of ?i line "columnPosition l'" tokens' "length line"] by simp
qed

lemma lineLoop_settles:
  assumes nb: "list_all (\<lambda>ln. backtick \<notin> set ln \<and> dquote \<notin> set ln \<and> squote \<notin> set ln) lines"
    and start: "linePosition l = 0"
  shows "\<exists>l' tokens'. lineLoop lines l [] = Inr (l', tokens')
           \<and> \<not> linePosition l' < length lines
           \<and> (\<forall>t \<in> set tokens'. Line t < linePosition l')
           \<and> (\<forall>i. i < length lines \<and> \<not> shouldSkipLine l (lines ! i) \<longrightarrow>
                  settled i (lines ! i) (length (lines ! i)) tokens')"
proof -
  let ?M = "\<lambda>l2 toks2. commentPrefixes l2 = commentPrefixes l
              \<and> (\<forall>t \<in> set toks2. Line t < linePosition l2)
              \<and> (\<forall>i. i < linePosition l2 \<and> i < length lines \<and> \<not> shouldSkipLine l (lines ! i) \<longrightarrow>
                    settled i (lines ! i) (length (lines ! i)) toks2)"
  have "\<exists>l' tokens'. lineLoop lines l [] = Inr (l', tokens') \<and> ?M l' tokens'
          \<and> \<not> linePosition l' < length lines"
  proof (rule lineLoop_rule[where I = ?M], goal_cases)
    case 1
    show ?case using start by simp
  next
    case (2 l2 toks2)
    then have M: "commentPrefixes l2 = commentPrefixes l"
      "\<forall>t \<in> set toks2. Line t < linePosition l2"
      "\<forall>i. i < linePosition l2 \<and> i < length lines \<and> \<not> shouldSkipLine l (lines ! i) \<longrightarrow>
           settled i (lines ! i) (length (lines ! i)) toks2" by simp_all
    from 2(3) M(1) have sk: "shouldSkipLine l (lines ! linePosition l2)"
      using shouldSkipLine_prefixes[of l2 l] by simp
    have "\<forall>i. i < linePosition l2 + 1 \<and> i < length lines \<and> \<not> shouldSkipLine l (lines ! i) \<longrightarrow>
           settled i (lines ! i) (length (lines ! i)) toks2"
    proof (intro allI impI)
      fix i assume h: "i < linePosition l2 + 1 \<and> i < length lines \<and> \<not> shouldSkipLine l (lines ! i)"
      with sk have "i \<noteq> linePosition l2" by auto
      with h have "i < linePosition l2" by simp
      with h M(3) show "settled i (lines ! i) (length (lines ! i)) toks2" by blast
    qed
    moreover from M(2) have "\<forall>t \<in> set toks2. Line t < linePosition l2 + 1" by auto
    ultimately show ?case using M(1) by simp
  next
    case (3 l2 toks2 l' tokens')
    then have M: "commentPrefixes l2 = commentPrefixes l"
      "\<forall>t \<in> set toks2. Line t < linePosition l2"
      "\<forall>i. i < linePosition l2 \<and> i < length lines \<and> \<not> shouldSkipLine l (lines ! i) \<longrightarrow>
           settled i (lines ! i) (length (lines ! i)) toks2" by simp_all
    let ?ln = "lines ! linePosition l2"
    from nb 3(2) have plain: "backtick \<notin> set ?ln" "dquote \<notin> set ?ln" "squote \<notin> set ?ln"
      by (simp_all add: list_all_length)
    from columnLoop_without_backtick[OF plain(1) 3(4)]
    obtain new where l': "linePosition l' = linePosition l2" "commentPrefixes l' = commentPrefixes l2"
      and new: "tokens' = toks2 @ new" "list_all (\<lambda>t. Line t = linePosition l2) new"
      by auto
    from columnLoop_settles[OF plain M(2) 3(4)]
    have here: "settled (linePosition l2) ?ln (length ?ln) tokens'" .
    have "\<forall>i. i < linePosition l2 + 1 \<and> i < length lines \<and> \<not> shouldSkipLine l (lines ! i) \<longrightarrow>
           settled i (lines ! i) (length (lines ! i)) tokens'"
    proof (intro allI impI)
      fix i assume h: "i < linePosition l2 + 1 \<and> i < length lines \<and> \<not> shouldSkipLine l (lines ! i)"
      show "settled i (lines ! i) (length (lines ! i)) tokens'"
      proof (cases "i = linePosition l2")
        case True
        with here show ?thesis by simp
      next
        case False
        with h have lt: "i < linePosition l2" by simp
        with h M(3) have s: "settled i (lines ! i) (length (lines ! i)) toks2" by blast
        from new(2) lt have "\<forall>t \<in> set new. Line t \<noteq> i" by (auto simp: list_all_iff)
        from settled_append[OF s this] new(1) show ?thesis by simp
      qed
    qed
    moreover have "\<forall>t \<in> set tokens'. Line t < linePosition l2 + 1"
      using M(2) new by (auto simp: list_all_iff)
    ultimately show ?case using M(1) l' by simp
  qed
  then obtain l' tokens' where r: "lineLoop lines l [] = Inr (l', tokens')"
    and b: "\<forall>t \<in> set tokens'. Line t < linePosition l'"
    and s: "\<forall>i. i < linePosition l' \<and> i < length lines \<and> \<not> shouldSkipLine l (lines ! i) \<longrightarrow>
                    settled i (lines ! i) (length (lines ! i)) tokens'"
    and e: "\<not> linePosition l' < length lines" by blast
  have "\<forall>i. i < length lines \<and> \<not> shouldSkipLine l (lines ! i) \<longrightarrow>
                  settled i (lines ! i) (length (lines ! i)) tokens'"
  proof (intro allI impI)
    fix i assume h: "i < length lines \<and> \<not> shouldSkipLine l (lines ! i)"
    with e have "i < linePosition l'" by simp
    with h s show "settled i (lines ! i) (length (lines ! i)) tokens'" by blast
  qed
  with r b e show ?thesis by blast
qed


lemma unclassified_dropped:
  assumes "\<not> isWhitespace c"
  shows "TrimSpace (byteToString c) = [] \<longleftrightarrow> c \<in> set [CHR 0x0B, CHR 0x0C, CHR 0x85, CHR 0xA0]"
  using assms unfolding TrimSpace_byteToString
  by (auto simp: asciiSpace_def isWhitespace_def)

text \<open>
  Claim C1, as the code has it. For every input and prefix list \<^verbatim>\<open>GenerateTokens\<close>
  returns (it does not panic) a sequence that ends with a token of kind EOF and empty
  literal, placed at the final cursor, and no token before it has kind EOF. A character
  of no class becomes an ILLEGAL token of its own, with one exception: the literal of a
  vertical tab, a form feed and of the bytes 0x85 and 0xA0 is white space for
  \<^verbatim>\<open>strings.TrimSpace\<close>, the guard before the classifier drops it, and the character
  gets no token. This is stated of the result, for every character of no class on a line
  that is not skipped, in an input without backtick and quote characters (inside a
  string a character is part of the string's literal).
\<close>

theorem GenerateTokens_EOF_and_ILLEGAL:
  "(\<exists>ts l'. GenerateTokens (NewLexer inp prefixes)
        = Inr (ts @ [\<lparr>Type = EOF, Literal = [], Start = columnPosition l',
                      End = columnPosition l', Line = linePosition l'\<rparr>], l')
      \<and> EOF \<notin> Type ` set ts)
   \<and> (backtick \<notin> set inp \<and> dquote \<notin> set inp \<and> squote \<notin> set inp
       \<and> GenerateTokens (NewLexer inp prefixes) = Inr (toks, lf)
       \<and> i < length (Split inp) \<and> \<not> shouldSkipLine (NewLexer inp prefixes) (Split inp ! i)
       \<and> j < length (Split inp ! i) \<and> c = Split inp ! i ! j
       \<and> \<not> isWhitespace c \<and> \<not> isDigit c \<and> \<not> isLetter c \<and> c \<noteq> CHR ''_''
       \<and> \<not> isOperator c \<and> \<not> isPunctuation c
       \<longrightarrow> (if c \<in> set [CHR 0x0B, CHR 0x0C, CHR 0x85, CHR 0xA0]
            then \<forall>t \<in> set toks. \<not> (Line t = i \<and> Start t = j)
            else \<lparr>Type = ILLEGAL, Literal = byteToString c, Start = j, End = j + 1, Line = i\<rparr>
                   \<in> set toks))"
proof -
  from lineLoop_no_EOF[of "Split inp" "NewLexer inp prefixes"]
  obtain l' tokens' where "lineLoop (Split inp) (NewLexer inp prefixes) [] = Inr (l', tokens')"
    and "EOF \<notin> Type ` set tokens'" by blast
  then have a: "\<exists>ts l'. GenerateTokens (NewLexer inp prefixes)
        = Inr (ts @ [\<lparr>Type = EOF, Literal = [], Start = columnPosition l',
                      End = columnPosition l', Line = linePosition l'\<rparr>], l')
      \<and> EOF \<notin> Type ` set ts"
    by (simp add: GenerateTokens_def NewLexer_def)
  have b: "if c \<in> set [CHR 0x0B, CHR 0x0C, CHR 0x85, CHR 0xA0]
            then \<forall>t \<in> set toks. \<not> (Line t = i \<and> Start t = j)
            else \<lparr>Type = ILLEGAL, Literal = byteToString c, Start = j, End = j + 1, Line = i\<rparr>
                   \<in> set toks"
    if plain: "backtick \<notin> set inp" "dquote \<notin> set inp" "squote \<notin> set inp"
      and g: "GenerateTokens (NewLexer inp prefixes) = Inr (toks, lf)"
      and i: "i < length (Split inp)" "\<not> shouldSkipLine (NewLexer inp prefixes) (Split inp ! i)"
      and j: "j < length (Split inp ! i)" "c = Split inp ! i ! j"
      and cls: "\<not> isWhitespace c" "\<not> isDigit c" "\<not> isLetter c" "c \<noteq> CHR ''_''"
        "\<not> isOperator c" "\<not> isPunctuation c"
  proof -
    let ?l = "NewLexer inp prefixes"
    let ?ln = "Split inp ! i"
    have inp: "input ?l = inp" and lp: "linePosition ?l = 0" by (simp_all add: NewLexer_def)
    from g obtain tokens' where
      ll: "lineLoop (Split inp) ?l [] = Inr (lf, tokens')"
      and toks: "toks = tokens' @ [\<lparr>Type = EOF, Literal = [], Start = columnPosition lf,
                                End = columnPosition lf, Line = linePosition lf\<rparr>]"
      unfolding GenerateTokens_Inr inp by blast
    have lines: "list_all (\<lambda>ln. backtick \<notin> set ln \<and> dquote \<notin> set ln \<and> squote \<notin> set ln) (Split inp)"
      unfolding list_all_iff using Split_set plain by blast
    from lineLoop_settles[OF lines lp] ll
    have e: "\<not> linePosition lf < length (Split inp)"
      and s: "\<forall>i. i < length (Split inp) \<and> \<not> shouldSkipLine ?l (Split inp ! i) \<longrightarrow>
                  settled i (Split inp ! i) (length (Split inp ! i)) tokens'"
      by simp_all
    from s i have "settled i ?ln (length ?ln) tokens'" by blast
    moreover from e i(1) have "\<forall>t \<in> set [\<lparr>Type = EOF, Literal = [], Start = columnPosition lf,
                                End = columnPosition lf, Line = linePosition lf\<rparr>]. Line t \<noteq> i"
      by simp
    ultimately have st: "settled i ?ln (length ?ln) toks"
      unfolding toks by (rule settled_append)
    from i(1) have "?ln \<in> set (Split inp)" by simp
    with Split_set j have "c \<in> set inp" by (metis nth_mem subsetD)
    with plain have "c \<noteq> backtick" "c \<noteq> dquote" "c \<noteq> squote" by auto
    with cls have u: "unclassified (?ln ! j)" unfolding j(2) unclassified_def by simp
    from st j(1) u
    have "if TrimSpace (byteToString (?ln ! j)) = []
         then \<forall>t \<in> set toks. \<not> (Line t = i \<and> Start t = j)
         else \<lparr>Type = ILLEGAL, Literal = byteToString (?ln ! j), Start = j, End = j + 1, Line = i\<rparr>
                \<in> set toks"
      unfolding settled_def by blast
    then show ?thesis
      unfolding j(2)[symmetric] unclassified_dropped[OF cls(1)] .
  qed
  from a b show ?thesis by blast
qed

theorem vertical_tab_gets_no_token_counterexample:
  "GenerateTokens (NewLexer [CHR 0x0B] []) =
     Inr ([\<lparr>Type = EOF, Literal = [], Start = 1, End = 1, Line = 1\<rparr>],
          \<lparr>input = [CHR 0x0B], commentPrefixes = [], columnPosition = 1, linePosition = 1\<rparr>)
   \<and> \<not> isWhitespace (CHR 0x0B) \<and> CHR 0x0B \<noteq> backtick \<and> CHR 0x0B \<noteq> dquote
   \<and> CHR 0x0B \<noteq> squote \<and> \<not> isDigit (CHR 0x0B) \<and> \<not> isLetter (CHR 0x0B)
   \<and> CHR 0x0B \<noteq> CHR ''_'' \<and> \<not> isOperator (CHR 0x0B) \<and> \<not> isPunctuation (CHR 0x0B)"
  by code_simp

theorem GenerateTokens_EOF_and_ILLEGAL_witness:
  "backtick \<notin> set (''x @'' @ [CHR 0x0B]) \<and> dquote \<notin> set (''x @'' @ [CHR 0x0B]) \<and> squote \<notin> set (''x @'' @ [CHR 0x0B])
   \<and> GenerateTokens (NewLexer (''x @'' @ [CHR 0x0B]) []) = Inr ([\<lparr>Type = IDENT, Literal = ''x'', Start = 0, End = 1, Line = 0\<rparr>,
            \<lparr>Type = ILLEGAL, Literal = ''@'', Start = 2, End = 3, Line = 0\<rparr>,
            \<lparr>Type = EOF, Literal = [], Start = 4, End = 4, Line = 1\<rparr>], \<lparr>input = (''x @'' @ [CHR 0x0B]), commentPrefixes = [], columnPosition = 4, linePosition = 1\<rparr>)
   \<and> \<not> shouldSkipLine (NewLexer (''x @'' @ [CHR 0x0B]) []) (Split (''x @'' @ [CHR 0x0B]) ! 0)
   \<and> Split (''x @'' @ [CHR 0x0B]) ! 0 ! 2 = CHR ''@'' \<and> Split (''x @'' @ [CHR 0x0B]) ! 0 ! 3 = CHR 0x0B
   \<and> \<lparr>Type = ILLEGAL, Literal = ''@'', Start = 2, End = 3, Line = 0\<rparr> \<in> set [\<lparr>Type = IDENT, Literal = ''x'', Start = 0, End = 1, Line = 0\<rparr>,
            \<lparr>Type = ILLEGAL, Literal = ''@'', Start = 2, End = 3, Line = 0\<rparr>,
            \<lparr>Type = EOF, Literal = [], Start = 4, End = 4, Line = 1\<rparr>]
   \<and> list_all (\<lambda>t. \<not> (Line t = 0 \<and> Start t = 3)) [\<lparr>Type = IDENT, Literal = ''x'', Start = 0, End = 1, Line = 0\<rparr>,
            \<lparr>Type = ILLEGAL, Literal = ''@'', Start = 2, End = 3, Line = 0\<rparr>,
            \<lparr>Type = EOF, Literal = [], Start = 4, End = 4, Line = 1\<rparr>]
   \<and> (\<exists>ts l'. GenerateTokens (NewLexer (''x @'' @ [CHR 0x0B]) [])
        = Inr (ts @ [\<lparr>Type = EOF, Literal = [], Start = columnPosition l',
                      End = columnPosition l', Line = linePosition l'\<rparr>], l')
      \<and> EOF \<notin> Type ` set ts)"
proof -
  let ?inp = "(''x @'' @ [CHR 0x0B])"
  let ?toks = "[\<lparr>Type = IDENT, Literal = ''x'', Start = 0, End = 1, Line = 0\<rparr>,
            \<lparr>Type = ILLEGAL, Literal = ''@'', Start = 2, End = 3, Line = 0\<rparr>,
            \<lparr>Type = EOF, Literal = [], Start = 4, End = 4, Line = 1\<rparr>]"
  let ?lf = "\<lparr>input = (''x @'' @ [CHR 0x0B]), commentPrefixes = [], columnPosition = 4, linePosition = 1\<rparr>"
  have plain: "backtick \<notin> set ?inp" "dquote \<notin> set ?inp" "squote \<notin> set ?inp" by simp_all
  have g: "GenerateTokens (NewLexer ?inp []) = Inr (?toks, ?lf)" by code_simp
  have sp: "Split ?inp = [?inp]" by code_simp
  have i: "(0::nat) < length (Split ?inp)" "\<not> shouldSkipLine (NewLexer ?inp []) (Split ?inp ! 0)"
    unfolding sp by (simp_all add: shouldSkipLine_def NewLexer_def)
  have j2: "(2::nat) < length (Split ?inp ! 0)" "CHR ''@'' = Split ?inp ! 0 ! 2"
    unfolding sp by simp_all
  have j3: "(3::nat) < length (Split ?inp ! 0)" "CHR 0x0B = Split ?inp ! 0 ! 3"
    unfolding sp by simp_all
  have c2: "\<not> isWhitespace CHR ''@''" "\<not> isDigit CHR ''@''" "\<not> isLetter CHR ''@''"
    "CHR ''@'' \<noteq> CHR ''_''" "\<not> isOperator CHR ''@''" "\<not> isPunctuation CHR ''@''"
    by (simp_all add: isWhitespace_def isDigit_def isLetter_def isOperator_def isPunctuation_def byte_def)
  have c3: "\<not> isWhitespace (CHR 0x0B)" "\<not> isDigit (CHR 0x0B)" "\<not> isLetter (CHR 0x0B)"
    "CHR 0x0B \<noteq> CHR ''_''" "\<not> isOperator (CHR 0x0B)" "\<not> isPunctuation (CHR 0x0B)"
    by (simp_all add: isWhitespace_def isDigit_def isLetter_def isOperator_def isPunctuation_def byte_def)
  note T2 = GenerateTokens_EOF_and_ILLEGAL[where inp = ?inp and prefixes = "[]" and toks = ?toks
      and lf = ?lf and i = 0 and j = 2 and c = "CHR ''@''"]
  note T3 = GenerateTokens_EOF_and_ILLEGAL[where inp = ?inp and prefixes = "[]" and toks = ?toks
      and lf = ?lf and i = 0 and j = 3 and c = "CHR 0x0B"]
  from T2 have e: "\<exists>ts l'. GenerateTokens (NewLexer ?inp [])
        = Inr (ts @ [\<lparr>Type = EOF, Literal = [], Start = columnPosition l',
                      End = columnPosition l', Line = linePosition l'\<rparr>], l')
      \<and> EOF \<notin> Type ` set ts" by blast
  from T2 plain g i j2 c2
  have "if CHR ''@'' \<in> set [CHR 0x0B, CHR 0x0C, CHR 0x85, CHR 0xA0]
        then \<forall>t \<in> set ?toks. \<not> (Line t = 0 \<and> Start t = 2)
        else \<lparr>Type = ILLEGAL, Literal = byteToString CHR ''@'', Start = 2, End = 2 + 1, Line = 0\<rparr>
               \<in> set ?toks" by blast
  then have r2: "\<lparr>Type = ILLEGAL, Literal = ''@'', Start = 2, End = 3, Line = 0\<rparr> \<in> set ?toks"
    by (simp add: byteToString_def byte_def)
  from T3 plain g i j3 c3
  have "if CHR 0x0B \<in> set [CHR 0x0B, CHR 0x0C, CHR 0x85, CHR 0xA0]
        then \<forall>t \<in> set ?toks. \<not> (Line t = 0 \<and> Start t = 3)
        else \<lparr>Type = ILLEGAL, Literal = byteToString (CHR 0x0B), Start = 3, End = 3 + 1, Line = 0\<rparr>
               \<in> set ?toks" by blast
  then have r3: "list_all (\<lambda>t. \<not> (Line t = 0 \<and> Start t = 3)) ?toks"
    by (simp add: list_all_iff)
  have sk: "\<not> shouldSkipLine (NewLexer ?inp []) (Split ?inp ! 0)" by (rule i(2))
  from plain g sk j2(2) j3(2) r2 r3 e show ?thesis by simp
qed

subsection \<open>C2: characters recovered from the literals\<close>

text \<open>
  Claim C2, evaluated where the code departs from it. The input is the two lines
  \<^verbatim>\<open>`a\<close> and \<^verbatim>\<open>b` xyz\<close>. After the raw string the column loop goes on with the
  length of the first line, which the cursor has passed, so the loop ends and the
  characters \<^verbatim>\<open>xyz\<close> of the second line reach no token.
\<close>

theorem raw_string_drops_rest_of_closing_line:
  "GenerateTokens (NewLexer (''`a'' @ [LF] @ ''b` xyz'') []) =
     Inr ([\<lparr>Type = STRING, Literal = ''`a'' @ [LF] @ ''b`'', Start = 0, End = 2, Line = 0\<rparr>,
           \<lparr>Type = EOF, Literal = [], Start = 2, End = 2, Line = 2\<rparr>],
          \<lparr>input = ''`a'' @ [LF] @ ''b` xyz'', commentPrefixes = [],
             columnPosition = 2, linePosition = 2\<rparr>)
   \<and> CHR ''x'' \<notin> set (''`a'' @ [LF] @ ''b`'' @ [])
   \<and> \<not> isWhitespace CHR ''x''"
  by code_simp

subsection \<open>C3: the multi-line raw string scenario\<close>

text \<open>
  Claim C3, evaluated. The input is \<^verbatim>\<open>`multi\<close>, a line feed, \<^verbatim>\<open>line`\<close>, with no
  prefix. The result has three tokens, not two: after the raw string the column loop
  reads column 5 of the first line again and makes an identifier of its \<^verbatim>\<open>i\<close>.
\<close>

theorem multi_line_raw_string_scenario:
  "GenerateTokens (NewLexer (''`multi'' @ [LF] @ ''line`'') []) =
     Inr ([\<lparr>Type = STRING, Literal = ''`multi'' @ [LF] @ ''line`'', Start = 0, End = 5, Line = 0\<rparr>,
           \<lparr>Type = IDENT, Literal = ''i'', Start = 5, End = 6, Line = 1\<rparr>,
           \<lparr>Type = EOF, Literal = [], Start = 6, End = 6, Line = 2\<rparr>],
          \<lparr>input = ''`multi'' @ [LF] @ ''line`'', commentPrefixes = [],
             columnPosition = 6, linePosition = 2\<rparr>)"
  by code_simp

subsection \<open>C4: Start and End\<close>

text \<open>
  The invariant of the two loops for claim C4: a token whose literal holds no line feed
  ends to the right of where it starts.
\<close>

definition forwards :: "Token \<Rightarrow> bool" where
  "forwards t \<longleftrightarrow> (LF \<notin> set (Literal t) \<longrightarrow> Start t < End t)"

lemma columnLoop_forwards:
  assumes "list_all forwards tokens"
  shows "\<exists>l' tokens'. columnLoop lines line l tokens = Inr (l', tokens') \<and> list_all forwards tokens'"
proof -
  have "\<exists>l' tokens'. columnLoop lines line l tokens = Inr (l', tokens')
          \<and> list_all forwards tokens' \<and> \<not> columnPosition l' < length line"
  proof (rule columnLoop_rule[where I = "\<lambda>_ tokens. list_all forwards tokens"], goal_cases)
    case 1
    show ?case by (rule assms)
  next
    case (2 l tokens)
    then show ?case by simp
  next
    case (3 l tokens l1 content)
    from rawLoop_content[OF 3(4)] rawLoop_bounds[OF 3(4)]
    have "LF \<notin> set content \<longrightarrow> columnPosition l < columnPosition l1" by auto
    with 3(1) show ?case by (simp add: forwards_def)
  next
    case (4 l tokens literal l1 ty)
    from generateLiteral_progress[OF 4(5)] 4(1) show ?case by (simp add: forwards_def)
  next
    case (5 l tokens literal l1)
    then show ?case by simp
  qed
  then show ?thesis by blast
qed

lemma lineLoop_forwards:
  "\<exists>l' tokens'. lineLoop lines l [] = Inr (l', tokens') \<and> list_all forwards tokens'"
proof -
  have "\<exists>l' tokens'. lineLoop lines l [] = Inr (l', tokens')
          \<and> list_all forwards tokens' \<and> \<not> linePosition l' < length lines"
  proof (rule lineLoop_rule[where I = "\<lambda>_ tokens. list_all forwards tokens"], goal_cases)
    case 1
    show ?case by simp
  next
    case (2 l tokens)
    then show ?case by simp
  next
    case (3 l tokens l' tokens')
    from columnLoop_forwards[OF 3(1), of lines "lines ! linePosition l" "l\<lparr>columnPosition := 0\<rparr>"] 3(4)
    show ?case by simp
  qed
  then show ?thesis by blast
qed

text \<open>
  Claim C4, as the code has it. \<^verbatim>\<open>End\<close> is the column of the cursor after the token, on
  the line where the cursor then is. A token whose literal holds no line feed (every
  token but a raw string that ran over a line break) ends to the right of its start:
  \<open>Start < End\<close>. The last token is the EOF token, with empty literal and \<open>Start\<close> and
  \<open>End\<close> both the final column of the cursor. A raw string that runs over a line break
  ends at a column of a later line, which can be to the left of its start.
\<close>

theorem End_after_Start_within_a_line:
  assumes "GenerateTokens (NewLexer inp prefixes) = Inr (toks, l')"
  shows "(\<forall>t \<in> set (butlast toks). LF \<notin> set (Literal t) \<longrightarrow> Start t < End t)
       \<and> (\<forall>t \<in> set toks. LF \<notin> set (Literal t) \<longrightarrow> Start t \<le> End t)
       \<and> last toks = \<lparr>Type = EOF, Literal = [], Start = columnPosition l',
                       End = columnPosition l', Line = linePosition l'\<rparr>"
proof -
  let ?eof = "\<lparr>Type = EOF, Literal = [], Start = columnPosition l',
                End = columnPosition l', Line = linePosition l'\<rparr>"
  from assms obtain tokens' where
    ll: "lineLoop (Split (input (NewLexer inp prefixes))) (NewLexer inp prefixes) [] = Inr (l', tokens')"
    and toks: "toks = tokens' @ [?eof]"
    unfolding GenerateTokens_Inr by blast
  from lineLoop_forwards[of "Split (input (NewLexer inp prefixes))" "NewLexer inp prefixes"] ll
  have inv: "list_all forwards tokens'" by simp
  from toks have b: "butlast toks = tokens'" and l: "last toks = ?eof" by simp_all
  from inv have 1: "\<forall>t \<in> set (butlast toks). LF \<notin> set (Literal t) \<longrightarrow> Start t < End t"
    unfolding b by (simp add: list_all_iff forwards_def)
  from inv have 2: "\<forall>t \<in> set toks. LF \<notin> set (Literal t) \<longrightarrow> Start t \<le> End t"
    unfolding toks by (auto simp: list_all_iff forwards_def)
  from 1 2 l show ?thesis by blast
qed

theorem End_before_Start_counterexample:
  "GenerateTokens (NewLexer (''  `a'' @ [LF] @ ''`'') []) =
     Inr ([\<lparr>Type = STRING, Literal = ''`a'' @ [LF] @ ''`'', Start = 2, End = 1, Line = 0\<rparr>,
           \<lparr>Type = STRING, Literal = ''`'' @ [LF], Start = 2, End = 0, Line = 1\<rparr>,
           \<lparr>Type = STRING, Literal = ''`'', Start = 2, End = 3, Line = 2\<rparr>,
           \<lparr>Type = IDENT, Literal = ''a'', Start = 3, End = 4, Line = 2\<rparr>,
           \<lparr>Type = EOF, Literal = [], Start = 4, End = 4, Line = 3\<rparr>],
          \<lparr>input = ''  `a'' @ [LF] @ ''`'', commentPrefixes = [], columnPosition = 4, linePosition = 3\<rparr>)
   \<and> \<not> End \<lparr>Type = STRING, Literal = ''`a'' @ [LF] @ ''`'', Start = 2, End = 1, Line = 0\<rparr>
        \<ge> Start \<lparr>Type = STRING, Literal = ''`a'' @ [LF] @ ''`'', Start = 2, End = 1, Line = 0\<rparr>"
  by code_simp

theorem End_after_Start_within_a_line_witness:
  "GenerateTokens (NewLexer ''x `a`'' []) =
     Inr ([\<lparr>Type = IDENT, Literal = ''x'', Start = 0, End = 1, Line = 0\<rparr>,
           \<lparr>Type = STRING, Literal = ''`a`'', Start = 2, End = 5, Line = 0\<rparr>,
           \<lparr>Type = EOF, Literal = [], Start = 5, End = 5, Line = 1\<rparr>],
          \<lparr>input = ''x `a`'', commentPrefixes = [], columnPosition = 5, linePosition = 1\<rparr>)
   \<and> LF \<notin> set ''`a`'' \<and> (2::nat) < 5 \<and> LF \<notin> set ''x'' \<and> (0::nat) < 1 \<and> (5::nat) \<le> 5"
proof -
  have g: "GenerateTokens (NewLexer ''x `a`'' []) =
     Inr ([\<lparr>Type = IDENT, Literal = ''x'', Start = 0, End = 1, Line = 0\<rparr>,
           \<lparr>Type = STRING, Literal = ''`a`'', Start = 2, End = 5, Line = 0\<rparr>,
           \<lparr>Type = EOF, Literal = [], Start = 5, End = 5, Line = 1\<rparr>],
          \<lparr>input = ''x `a`'', commentPrefixes = [], columnPosition = 5, linePosition = 1\<rparr>)"
    by code_simp
  from End_after_Start_within_a_line[OF g] g show ?thesis by simp
qed

subsection \<open>C5: reclassifying a literal\<close>

text \<open>
  The invariant of the two loops for claim C5: what the classifier makes of the literal
  of a token that stands in the list.
\<close>

definition reclassified :: "Token \<Rightarrow> bool" where
  "reclassified t \<longleftrightarrow>
     tokenType (Literal t)
       = (if Type t = STRING then Inr ILLEGAL
          else if Type t = EOF then Inl IndexOutOfRange
          else Inr (Type t))"

lemma columnLoop_reclassified:
  assumes "list_all reclassified tokens"
  shows "\<exists>l' tokens'. columnLoop lines line l tokens = Inr (l', tokens') \<and> list_all reclassified tokens'"
proof -
  have "\<exists>l' tokens'. columnLoop lines line l tokens = Inr (l', tokens')
          \<and> list_all reclassified tokens' \<and> \<not> columnPosition l' < length line"
  proof (rule columnLoop_rule[where I = "\<lambda>_ tokens. list_all reclassified tokens"], goal_cases)
    case 1
    show ?case by (rule assms)
  next
    case (2 l tokens)
    then show ?case by simp
  next
    case (3 l tokens l1 content)
    from rawLoop_content[OF 3(4)] obtain ext where "content = backtick # ext" by auto
    with 3(1) show ?case by (simp add: reclassified_def tokenType_raw)
  next
    case (4 l tokens literal l1 ty)
    from tokenType_kinds[OF 4(7)] 4(1,7) show ?case by (simp add: reclassified_def)
  next
    case (5 l tokens literal l1)
    then show ?case by simp
  qed
  then show ?thesis by blast
qed

lemma lineLoop_reclassified:
  "\<exists>l' tokens'. lineLoop lines l [] = Inr (l', tokens') \<and> list_all reclassified tokens'"
proof -
  have "\<exists>l' tokens'. lineLoop lines l [] = Inr (l', tokens')
          \<and> list_all reclassified tokens' \<and> \<not> linePosition l' < length lines"
  proof (rule lineLoop_rule[where I = "\<lambda>_ tokens. list_all reclassified tokens"], goal_cases)
    case 1
    show ?case by simp
  next
    case (2 l tokens)
    then show ?case by simp
  next
    case (3 l tokens l' tokens')
    from columnLoop_reclassified[OF 3(1), of lines "lines ! linePosition l" "l\<lparr>columnPosition := 0\<rparr>"] 3(4)
    show ?case by simp
  qed
  then show ?thesis by blast
qed

text \<open>
  Claim C5, as the code has it. The raw-string token and the EOF token are built without
  the classifier, and the classifier does not give their kinds back: the literal of a
  STRING token starts with a backtick and classifies as ILLEGAL, and the empty literal of
  the EOF token makes the classifier panic. For every other token of a result, the
  classifier applied to the token's literal gives the kind stored on the token.
\<close>

theorem reclassification_gives_the_stored_kind:
  assumes "GenerateTokens (NewLexer inp prefixes) = Inr (toks, l')" and "t \<in> set toks"
  shows "tokenType (Literal t)
           = (if Type t = STRING then Inr ILLEGAL
              else if Type t = EOF then Inl IndexOutOfRange
              else Inr (Type t))"
proof -
  from assms(1) obtain tokens' where
    ll: "lineLoop (Split (input (NewLexer inp prefixes))) (NewLexer inp prefixes) [] = Inr (l', tokens')"
    and toks: "toks = tokens' @ [\<lparr>Type = EOF, Literal = [], Start = columnPosition l',
                                End = columnPosition l', Line = linePosition l'\<rparr>]"
    unfolding GenerateTokens_Inr by blast
  from lineLoop_reclassified[of "Split (input (NewLexer inp prefixes))" "NewLexer inp prefixes"] ll
  have inv: "list_all reclassified tokens'" by simp
  have e: "reclassified \<lparr>Type = EOF, Literal = [], Start = columnPosition l',
                          End = columnPosition l', Line = linePosition l'\<rparr>"
    by (simp add: reclassified_def tokenType_def)
  from toks inv e have "list_all reclassified toks" by simp
  with assms(2) have "reclassified t" by (simp add: list_all_iff)
  then show ?thesis by (simp add: reclassified_def)
qed

theorem reclassification_counterexample:
  "GenerateTokens (NewLexer ''`a`'' []) =
     Inr ([\<lparr>Type = STRING, Literal = ''`a`'', Start = 0, End = 3, Line = 0\<rparr>,
           \<lparr>Type = EOF, Literal = [], Start = 3, End = 3, Line = 1\<rparr>],
          \<lparr>input = ''`a`'', commentPrefixes = [], columnPosition = 3, linePosition = 1\<rparr>)
   \<and> tokenType ''`a`'' = Inr ILLEGAL
   \<and> tokenType [] = Inl IndexOutOfRange"
  by code_simp

theorem reclassification_gives_the_stored_kind_witness:
  "GenerateTokens (NewLexer ''x=`a`'' []) =
     Inr ([\<lparr>Type = IDENT, Literal = ''x'', Start = 0, End = 1, Line = 0\<rparr>,
           \<lparr>Type = ASSIGN, Literal = ''='', Start = 1, End = 2, Line = 0\<rparr>,
           \<lparr>Type = STRING, Literal = ''`a`'', Start = 2, End = 5, Line = 0\<rparr>,
           \<lparr>Type = EOF, Literal = [], Start = 5, End = 5, Line = 1\<rparr>],
          \<lparr>input = ''x=`a`'', commentPrefixes = [], columnPosition = 5, linePosition = 1\<rparr>)
   \<and> tokenType ''x'' = Inr IDENT \<and> tokenType ''='' = Inr ASSIGN
   \<and> tokenType ''`a`'' = Inr ILLEGAL \<and> tokenType [] = Inl IndexOutOfRange"
proof -
  have g: "GenerateTokens (NewLexer ''x=`a`'' []) =
     Inr ([\<lparr>Type = IDENT, Literal = ''x'', Start = 0, End = 1, Line = 0\<rparr>,
           \<lparr>Type = ASSIGN, Literal = ''='', Start = 1, End = 2, Line = 0\<rparr>,
           \<lparr>Type = STRING, Literal = ''`a`'', Start = 2, End = 5, Line = 0\<rparr>,
           \<lparr>Type = EOF, Literal = [], Start = 5, End = 5, Line = 1\<rparr>],
          \<lparr>input = ''x=`a`'', commentPrefixes = [], columnPosition = 5, linePosition = 1\<rparr>)"
    by code_simp
  note r = reclassification_gives_the_stored_kind[OF g]
  have 1: "tokenType ''x'' = Inr IDENT"
    using r[of "\<lparr>Type = IDENT, Literal = ''x'', Start = 0, End = 1, Line = 0\<rparr>"] by simp
  have 2: "tokenType ''='' = Inr ASSIGN"
    using r[of "\<lparr>Type = ASSIGN, Literal = ''='', Start = 1, End = 2, Line = 0\<rparr>"] by simp
  have 3: "tokenType ''`a`'' = Inr ILLEGAL"
    using r[of "\<lparr>Type = STRING, Literal = ''`a`'', Start = 2, End = 5, Line = 0\<rparr>"] by simp
  have 4: "tokenType [] = Inl IndexOutOfRange"
    using r[of "\<lparr>Type = EOF, Literal = [], Start = 5, End = 5, Line = 1\<rparr>"] by simp
  from g 1 2 3 4 show ?thesis by blast
qed

subsection \<open>C6: the classifier\<close>

text \<open>
  Claim C6. For a non-empty literal the classifier returns a token whose kind is the one
  the symbol table gives for an exact match and otherwise the one the first character
  decides (digit: INT, letter or underscore: IDENT, anything else: ILLEGAL); the input
  \<^verbatim>\<open>@\<close> gives one ILLEGAL token with literal \<^verbatim>\<open>@\<close>, then EOF.
\<close>

theorem classifier_is_table_then_first_char:
  "(literal \<noteq> [] \<longrightarrow>
      GenerateNewToken literal s e n
        = Inr \<lparr>Type = classifySpec literal, Literal = literal, Start = s, End = e, Line = n\<rparr>)
   \<and> GenerateTokens (NewLexer ''@'' []) =
       Inr ([\<lparr>Type = ILLEGAL, Literal = ''@'', Start = 0, End = 1, Line = 0\<rparr>,
             \<lparr>Type = EOF, Literal = [], Start = 1, End = 1, Line = 1\<rparr>],
            \<lparr>input = ''@'', commentPrefixes = [], columnPosition = 1, linePosition = 1\<rparr>)"
proof -
  have a: "literal \<noteq> [] \<longrightarrow>
      GenerateNewToken literal s e n
        = Inr \<lparr>Type = classifySpec literal, Literal = literal, Start = s, End = e, Line = n\<rparr>"
    by (simp add: GenerateNewToken_Inr tokenType_classifySpec)
  have b: "GenerateTokens (NewLexer ''@'' []) =
       Inr ([\<lparr>Type = ILLEGAL, Literal = ''@'', Start = 0, End = 1, Line = 0\<rparr>,
             \<lparr>Type = EOF, Literal = [], Start = 1, End = 1, Line = 1\<rparr>],
            \<lparr>input = ''@'', commentPrefixes = [], columnPosition = 1, linePosition = 1\<rparr>)"
    by code_simp
  from a b show ?thesis by (rule conjI)
qed

theorem classifier_is_table_then_first_char_witness:
  "''=='' \<noteq> [] \<and> ''9z'' \<noteq> [] \<and> ''_a$'' \<noteq> [] \<and> ''#'' \<noteq> []
   \<and> GenerateNewToken ''=='' 1 3 0 = Inr \<lparr>Type = EQ, Literal = ''=='', Start = 1, End = 3, Line = 0\<rparr>
   \<and> GenerateNewToken ''9z'' 1 3 0 = Inr \<lparr>Type = INT', Literal = ''9z'', Start = 1, End = 3, Line = 0\<rparr>
   \<and> GenerateNewToken ''_a$'' 1 4 0 = Inr \<lparr>Type = IDENT, Literal = ''_a$'', Start = 1, End = 4, Line = 0\<rparr>
   \<and> GenerateNewToken ''#'' 1 2 0 = Inr \<lparr>Type = ILLEGAL, Literal = ''#'', Start = 1, End = 2, Line = 0\<rparr>"
  using classifier_is_table_then_first_char[of "''==''" 1 3 0]
    classifier_is_table_then_first_char[of "''9z''" 1 3 0]
    classifier_is_table_then_first_char[of "''_a$''" 1 4 0]
    classifier_is_table_then_first_char[of "''#''" 1 2 0]
  by (simp add: classifySpec_def symbolTable_def isDigit_def isLetter_def byte_def)

subsection \<open>C7: the lookahead at an operator\<close>



subsection \<open>C8: comment lines\<close>

text \<open>
  The invariant of the line loop for claim C8: the line a token is attributed to is a line
  of the input that is no comment line and holds a character that is not whitespace.
\<close>

definition onScannedLine :: "string list \<Rightarrow> DraskenLexer \<Rightarrow> Token \<Rightarrow> bool" where
  "onScannedLine lines l t \<longleftrightarrow>
     Line t < length lines \<and> \<not> shouldSkipLine l (lines ! Line t)
     \<and> list_ex (\<lambda>c. \<not> isWhitespace c) (lines ! Line t)"

lemma lineLoop_without_backtick:
  assumes nb: "list_all (\<lambda>ln. backtick \<notin> set ln) lines"
  shows "\<exists>l' tokens'. lineLoop lines l [] = Inr (l', tokens') \<and> list_all (onScannedLine lines l) tokens'"
proof -
  let ?I = "\<lambda>l2 tokens2. commentPrefixes l2 = commentPrefixes l \<and> list_all (onScannedLine lines l) tokens2"
  have "\<exists>l' tokens'. lineLoop lines l [] = Inr (l', tokens') \<and> ?I l' tokens'
          \<and> \<not> linePosition l' < length lines"
  proof (rule lineLoop_rule[where I = ?I], goal_cases)
    case 1
    show ?case by simp
  next
    case (2 l2 tokens2)
    then show ?case by simp
  next
    case (3 l2 tokens2 l' tokens')
    let ?ln = "lines ! linePosition l2"
    from nb 3(2) have "backtick \<notin> set ?ln" by (simp add: list_all_length)
    from columnLoop_without_backtick[OF this 3(4)]
    obtain new where l': "linePosition l' = linePosition l2" "commentPrefixes l' = commentPrefixes l2"
      and new: "tokens' = tokens2 @ new" "list_all (\<lambda>t. Line t = linePosition l2) new"
        "new \<noteq> [] \<longrightarrow> (\<exists>c \<in> set ?ln. \<not> isWhitespace c)"
      by auto
    from 3(1,3) have ns: "\<not> shouldSkipLine l ?ln"
      using shouldSkipLine_prefixes[of l2 l ?ln] by simp
    have "list_all (onScannedLine lines l) new"
      unfolding list_all_iff
    proof
      fix t assume t: "t \<in> set new"
      with new(2) have "Line t = linePosition l2" by (simp add: list_all_iff)
      moreover from t new(3) have "list_ex (\<lambda>c. \<not> isWhitespace c) ?ln"
        by (auto simp: list_ex_iff)
      ultimately show "onScannedLine lines l t" using 3(2) ns by (simp add: onScannedLine_def)
    qed
    with 3(1) new(1) l' show ?case by simp
  qed
  then show ?thesis by blast
qed

lemma columnLoop_whitespace_line:
  assumes ws: "list_all isWhitespace line"
  shows "\<exists>l'. columnLoop lines line l tokens = Inr (l', tokens) \<and> linePosition l' = linePosition l"
proof -
  from columnLoop_rule[of "\<lambda>_ _. True" l tokens line lines]
  obtain l' tokens' where c: "columnLoop lines line l tokens = Inr (l', tokens')" by auto
  have "\<not> isWhitespace backtick" by (simp add: isWhitespace_def)
  with ws have nb: "backtick \<notin> set line" unfolding list_all_iff by blast
  from ws have all: "\<not> (\<exists>c \<in> set line. \<not> isWhitespace c)" unfolding list_all_iff by blast
  from columnLoop_without_backtick[OF nb c]
  obtain new where lp: "linePosition l' = linePosition l" and n: "tokens' = tokens @ new"
    and e: "new \<noteq> [] \<longrightarrow> (\<exists>c \<in> set line. \<not> isWhitespace c)" by blast
  from e all have "new = []" by blast
  with c lp n show ?thesis by simp
qed

text \<open>
  Claim C8, as the code has it. The comment test is made on the lines that the line loop
  reaches; a line that a raw string has run over is consumed as text of that string and
  is never tested. Where the line loop stands at a line whose trimmed text starts with a
  configured prefix (a plain test of string prefix), it goes on to the next line with the
  tokens unchanged. The column loop over a line of whitespace only adds no token. With no
  prefix configured no line is skipped. In an input without a backtick the line loop
  reaches every line, and then no token but EOF is attributed to a comment line, or to a
  line without a character that is not whitespace.
\<close>

theorem comment_lines_are_skipped:
  "(linePosition l < length lines \<and> shouldSkipLine l (lines ! linePosition l) \<longrightarrow>
      lineLoop lines l tokens = lineLoop lines (l\<lparr>linePosition := linePosition l + 1\<rparr>) tokens)
   \<and> (shouldSkipLine l line \<longleftrightarrow>
        (\<exists>pre \<in> set (commentPrefixes l). \<exists>rest. TrimSpace line = pre @ rest))
   \<and> (commentPrefixes l = [] \<longrightarrow> \<not> shouldSkipLine l line)
   \<and> (list_all isWhitespace line \<longrightarrow>
        (\<exists>l'. columnLoop lines line l tokens = Inr (l', tokens) \<and> linePosition l' = linePosition l))
   \<and> (backtick \<notin> set inp \<and> GenerateTokens (NewLexer inp prefixes) = Inr (toks, lf)
        \<and> t \<in> set (butlast toks) \<longrightarrow>
        Line t < length (Split inp)
        \<and> \<not> shouldSkipLine (NewLexer inp prefixes) (Split inp ! Line t)
        \<and> (\<exists>c \<in> set (Split inp ! Line t). \<not> isWhitespace c))"
proof -
  have a: "linePosition l < length lines \<and> shouldSkipLine l (lines ! linePosition l) \<longrightarrow>
      lineLoop lines l tokens = lineLoop lines (l\<lparr>linePosition := linePosition l + 1\<rparr>) tokens"
    by (subst lineLoop.simps) (simp add: Let_def)
  have b: "shouldSkipLine l line \<longleftrightarrow>
        (\<exists>pre \<in> set (commentPrefixes l). \<exists>rest. TrimSpace line = pre @ rest)"
    by (simp add: shouldSkipLine_def Let_def list_ex_iff HasPrefix_iff)
  have c: "commentPrefixes l = [] \<longrightarrow> \<not> shouldSkipLine l line"
    by (simp add: shouldSkipLine_def)
  have d: "list_all isWhitespace line \<longrightarrow>
        (\<exists>l'. columnLoop lines line l tokens = Inr (l', tokens) \<and> linePosition l' = linePosition l)"
    using columnLoop_whitespace_line by blast
  have e: "Line t < length (Split inp)
        \<and> \<not> shouldSkipLine (NewLexer inp prefixes) (Split inp ! Line t)
        \<and> (\<exists>c \<in> set (Split inp ! Line t). \<not> isWhitespace c)"
    if nb: "backtick \<notin> set inp" and g: "GenerateTokens (NewLexer inp prefixes) = Inr (toks, lf)"
      and t: "t \<in> set (butlast toks)"
  proof -
    have inp: "input (NewLexer inp prefixes) = inp" by (simp add: NewLexer_def)
    from g obtain tokens' where
      ll: "lineLoop (Split inp) (NewLexer inp prefixes) [] = Inr (lf, tokens')"
      and toks: "toks = tokens' @ [\<lparr>Type = EOF, Literal = [], Start = columnPosition lf,
                                End = columnPosition lf, Line = linePosition lf\<rparr>]"
      unfolding GenerateTokens_Inr inp by blast
    have "list_all (\<lambda>ln. backtick \<notin> set ln) (Split inp)"
      unfolding list_all_iff using Split_set nb by blast
    from lineLoop_without_backtick[OF this, of "NewLexer inp prefixes"] ll
    have "list_all (onScannedLine (Split inp) (NewLexer inp prefixes)) tokens'" by simp
    moreover from t toks have "t \<in> set tokens'" by simp
    ultimately have "onScannedLine (Split inp) (NewLexer inp prefixes) t"
      by (simp add: list_all_iff)
    then show ?thesis by (simp add: onScannedLine_def list_ex_iff)
  qed
  from a b c d e show ?thesis by blast
qed

theorem comment_line_inside_raw_string_counterexample:
  "GenerateTokens (NewLexer (''`a'' @ [LF] @ ''//b`'') [''//'']) =
     Inr ([\<lparr>Type = STRING, Literal = ''`a'' @ [LF] @ ''//b`'', Start = 0, End = 4, Line = 0\<rparr>,
           \<lparr>Type = EOF, Literal = [], Start = 4, End = 4, Line = 2\<rparr>],
          \<lparr>input = ''`a'' @ [LF] @ ''//b`'', commentPrefixes = [''//''],
             columnPosition = 4, linePosition = 2\<rparr>)
   \<and> Split (''`a'' @ [LF] @ ''//b`'') ! 1 = ''//b`''
   \<and> shouldSkipLine (NewLexer (''`a'' @ [LF] @ ''//b`'') [''//'']) ''//b`''"
  by code_simp

theorem comment_lines_are_skipped_witness:
  "shouldSkipLine (NewLexer (''x'' @ [LF] @ ''//c'' @ [LF] @ ''  '' @ [LF] @ ''y'') [''//'']) ''//c'' \<and> \<not> shouldSkipLine (NewLexer (''x'' @ [LF] @ ''//c'' @ [LF] @ ''  '' @ [LF] @ ''y'') []) ''//c''
   \<and> list_all isWhitespace ''  '' \<and> backtick \<notin> set (''x'' @ [LF] @ ''//c'' @ [LF] @ ''  '' @ [LF] @ ''y'')
   \<and> GenerateTokens (NewLexer (''x'' @ [LF] @ ''//c'' @ [LF] @ ''  '' @ [LF] @ ''y'') [''//'']) =
       Inr ([\<lparr>Type = IDENT, Literal = ''x'', Start = 0, End = 1, Line = 0\<rparr>,
             \<lparr>Type = IDENT, Literal = ''y'', Start = 0, End = 1, Line = 3\<rparr>,
             \<lparr>Type = EOF, Literal = [], Start = 1, End = 1, Line = 4\<rparr>],
            (NewLexer (''x'' @ [LF] @ ''//c'' @ [LF] @ ''  '' @ [LF] @ ''y'') [''//''])\<lparr>columnPosition := 1, linePosition := 4\<rparr>)
   \<and> \<not> shouldSkipLine (NewLexer (''x'' @ [LF] @ ''//c'' @ [LF] @ ''  '' @ [LF] @ ''y'') [''//'']) (Split (''x'' @ [LF] @ ''//c'' @ [LF] @ ''  '' @ [LF] @ ''y'') ! 3)
   \<and> (\<exists>l'. columnLoop (Split (''x'' @ [LF] @ ''//c'' @ [LF] @ ''  '' @ [LF] @ ''y'')) ''  '' (NewLexer (''x'' @ [LF] @ ''//c'' @ [LF] @ ''  '' @ [LF] @ ''y'') [''//'']) [] = Inr (l', []) \<and> linePosition l' = linePosition (NewLexer (''x'' @ [LF] @ ''//c'' @ [LF] @ ''  '' @ [LF] @ ''y'') [''//'']))
   \<and> lineLoop (Split (''x'' @ [LF] @ ''//c'' @ [LF] @ ''  '' @ [LF] @ ''y'')) ((NewLexer (''x'' @ [LF] @ ''//c'' @ [LF] @ ''  '' @ [LF] @ ''y'') [''//''])\<lparr>linePosition := 1\<rparr>) []
       = lineLoop (Split (''x'' @ [LF] @ ''//c'' @ [LF] @ ''  '' @ [LF] @ ''y'')) ((NewLexer (''x'' @ [LF] @ ''//c'' @ [LF] @ ''  '' @ [LF] @ ''y'') [''//''])\<lparr>linePosition := 1\<rparr>\<lparr>linePosition := linePosition ((NewLexer (''x'' @ [LF] @ ''//c'' @ [LF] @ ''  '' @ [LF] @ ''y'') [''//''])\<lparr>linePosition := 1\<rparr>) + 1\<rparr>) []"
proof -
  let ?inp = "(''x'' @ [LF] @ ''//c'' @ [LF] @ ''  '' @ [LF] @ ''y'')"
  let ?l = "(NewLexer (''x'' @ [LF] @ ''//c'' @ [LF] @ ''  '' @ [LF] @ ''y'') [''//''])"
  let ?toks = "[\<lparr>Type = IDENT, Literal = ''x'', Start = 0, End = 1, Line = 0\<rparr>,
             \<lparr>Type = IDENT, Literal = ''y'', Start = 0, End = 1, Line = 3\<rparr>,
             \<lparr>Type = EOF, Literal = [], Start = 1, End = 1, Line = 4\<rparr>]"
  let ?t = "\<lparr>Type = IDENT, Literal = ''y'', Start = 0, End = 1, Line = 3\<rparr>"
  have sk: "shouldSkipLine ?l ''//c''" by code_simp
  have h1: "linePosition (?l\<lparr>linePosition := 1\<rparr>) < length (Split ?inp)
            \<and> shouldSkipLine (?l\<lparr>linePosition := 1\<rparr>) (Split ?inp ! linePosition (?l\<lparr>linePosition := 1\<rparr>))"
    by code_simp
  have h3: "commentPrefixes (NewLexer ?inp []) = []" by (simp add: NewLexer_def)
  have h4: "list_all isWhitespace ''  ''" by (simp add: isWhitespace_def)
  have nb: "backtick \<notin> set ?inp" by simp
  have g: "GenerateTokens ?l = Inr (?toks, ?l\<lparr>columnPosition := 1, linePosition := 4\<rparr>)"
    by code_simp
  have t: "?t \<in> set (butlast ?toks)" by simp
  from comment_lines_are_skipped[where l = "?l\<lparr>linePosition := 1\<rparr>" and lines = "Split ?inp"
      and tokens = "[]"] h1
  have r1: "lineLoop (Split ?inp) (?l\<lparr>linePosition := 1\<rparr>) []
       = lineLoop (Split ?inp) (?l\<lparr>linePosition := 1\<rparr>\<lparr>linePosition := linePosition (?l\<lparr>linePosition := 1\<rparr>) + 1\<rparr>) []"
    by blast
  from comment_lines_are_skipped[where l = "NewLexer ?inp []" and line = "''//c''"] h3
  have r3: "\<not> shouldSkipLine (NewLexer ?inp []) ''//c''" by blast
  from comment_lines_are_skipped[where l = ?l and line = "''  ''" and lines = "Split ?inp" and tokens = "[]"] h4
  have r4: "\<exists>l'. columnLoop (Split ?inp) ''  '' ?l [] = Inr (l', []) \<and> linePosition l' = linePosition ?l"
    by blast
  from comment_lines_are_skipped[where inp = ?inp and prefixes = "[''//'']" and toks = ?toks
      and lf = "?l\<lparr>columnPosition := 1, linePosition := 4\<rparr>" and t = ?t] nb g t
  have "\<not> shouldSkipLine ?l (Split ?inp ! Line ?t)" by blast
  then have r5: "\<not> shouldSkipLine ?l (Split ?inp ! 3)" by simp
  from sk r3 h4 nb g r5 r4 r1 show ?thesis by blast
qed

subsection \<open>C9: strings and lines\<close>

text \<open>
  Claim C9, evaluated where the code departs from it. The input is the one line
  \<^verbatim>\<open>`abc\<close>. The raw string runs to the end of the input; the column loop then reads
  the same line again from column 0 with the line index 1, and makes a second STRING
  token of the backtick, with \<open>Line = 1\<close>, although the input has no line 1 and its only
  backtick stands on line 0.
\<close>

theorem raw_string_line_after_rescan:
  "GenerateTokens (NewLexer ''`abc'' []) =
     Inr ([\<lparr>Type = STRING, Literal = ''`abc'' @ [LF], Start = 0, End = 0, Line = 0\<rparr>,
           \<lparr>Type = STRING, Literal = ''`'', Start = 0, End = 1, Line = 1\<rparr>,
           \<lparr>Type = IDENT, Literal = ''abc'', Start = 1, End = 4, Line = 1\<rparr>,
           \<lparr>Type = EOF, Literal = [], Start = 4, End = 4, Line = 2\<rparr>],
          \<lparr>input = ''`abc'', commentPrefixes = [], columnPosition = 4, linePosition = 2\<rparr>)
   \<and> Split ''`abc'' = [''`abc'']"
  by code_simp

subsection \<open>C10: the precondition of GenerateNewToken\<close>

text \<open>
  Claim C10. \<^verbatim>\<open>GenerateNewToken\<close> reads the first byte of its literal in the default
  branch: on the empty literal it panics with an index out of range, on every non-empty
  literal it returns a token. A literal whose trimmed form is non-empty is non-empty, and
  that is the guard under which \<^verbatim>\<open>GenerateTokens\<close> calls it, so \<^verbatim>\<open>GenerateTokens\<close>
  returns a value for every input and prefix list: no call has panicked.
\<close>

theorem GenerateNewToken_precondition:
  "GenerateNewToken [] s e n = Inl IndexOutOfRange
   \<and> (literal \<noteq> [] \<longrightarrow> (\<exists>t. GenerateNewToken literal s e n = Inr t))
   \<and> (TrimSpace literal \<noteq> [] \<longrightarrow> literal \<noteq> [])
   \<and> (\<exists>r. GenerateTokens (NewLexer inp prefixes) = Inr r)"
proof -
  have a: "GenerateNewToken [] s e n = Inl IndexOutOfRange"
    by (simp add: GenerateNewToken_def tokenType_def)
  have b: "literal \<noteq> [] \<longrightarrow> (\<exists>t. GenerateNewToken literal s e n = Inr t)"
    using tokenType_total[of literal] by (auto simp: GenerateNewToken_Inr)
  have c: "TrimSpace literal \<noteq> [] \<longrightarrow> literal \<noteq> []"
    using TrimSpace_Nil by auto
  from lineLoop_rule[of "\<lambda>_ _. True" "NewLexer inp prefixes" "[]" "Split inp"]
  obtain l' tokens' where "lineLoop (Split inp) (NewLexer inp prefixes) [] = Inr (l', tokens')"
    by auto
  then have d: "\<exists>r. GenerateTokens (NewLexer inp prefixes) = Inr r"
    by (simp add: GenerateTokens_def NewLexer_def)
  from a b c d show ?thesis by blast
qed

theorem GenerateNewToken_precondition_witness:
  "''x'' \<noteq> [] \<and> TrimSpace ''x'' \<noteq> []
   \<and> GenerateNewToken [] 0 1 0 = Inl IndexOutOfRange
   \<and> (\<exists>t. GenerateNewToken ''x'' 0 1 0 = Inr t)
   \<and> (\<exists>r. GenerateTokens (NewLexer ''x'' []) = Inr r)"
proof -
  have t: "TrimSpace ''x'' \<noteq> []"
    by (simp add: TrimSpace_def trimLeft.simps trimRight.simps firstSpaceWidth_def lastSpaceWidth_def
        asciiSpace_def spaceRunes2_def spaceRunes3_def)
  from GenerateNewToken_precondition[of 0 1 0 "''x''" "''x''" "[]"] t
  show ?thesis by simp
qed

end
